theory Spec2Isabelle
  imports Complex_Main
begin

section \<open>Data model of TACSAssembler (src/src/TACSAssembler.c)\<close>

text \<open>
  C \<^verbatim>\<open>int\<close> values are modelled as unbounded \<^typ>\<open>int\<close>: every quantity below is a
  node number, an array offset or a count of a mesh that fits in memory, and no property
  proved here depends on wrap-around. \<^verbatim>\<open>TacsScalar\<close> (a double) is modelled as
  \<^typ>\<open>real\<close>. A pointer member that may be \<^verbatim>\<open>NULL\<close> is an \<^typ>\<open>'a option\<close>.
  An array is a list; the model reads an array only at indices the C code reads, and the
  theorems state the sizes the C code relies on as hypotheses (reading outside an array is
  undefined behaviour in C and is not given a meaning here).

  A diagnostic written with \<^verbatim>\<open>fprintf(stderr, "[%d] ...", mpiRank, ...)\<close> is a pair of
  the rank that tags it and the text of its format string after the tag.
\<close>

type_synonym msg = "nat \<times> string"

text \<open>
  The part of the element interface the assembler calls. The kernels are not under src/
  (section 6 of the specification keeps them outside the assembler): an element carries
  them as functions. A kernel that writes through an output pointer returns the array
  written: \<^verbatim>\<open>getDesignVars(dvs, numDVs)\<close> and
  \<^verbatim>\<open>getDesignVarRange(lb, ub, numDVs)\<close> return the arrays they have written into,
  \<^verbatim>\<open>addResidual(time, res, Xpts, vars, dvars, ddvars)\<close> the residual it has added to.
\<close>

record tacs_element =
  el_numNodes :: int
  el_numVariables :: int
  el_numDisplacements :: int
  el_getDesignVars :: "real list \<Rightarrow> int \<Rightarrow> real list"
  el_getDesignVarRange :: "real list \<Rightarrow> real list \<Rightarrow> int \<Rightarrow> real list \<times> real list"
  el_addResidual :: "real \<Rightarrow> real list \<Rightarrow> real list \<Rightarrow> real list \<Rightarrow> real list \<Rightarrow> real list \<Rightarrow> real list"

text \<open>
  An auxiliary element (\<^verbatim>\<open>TACSAuxElem\<close>): the index \<^verbatim>\<open>num\<close> of the element it is
  attached to, and the element.
\<close>

record tacs_aux_elem =
  aux_num :: int
  aux_elem :: tacs_element

text \<open>
  The argument block handed to the worker threads (\<^verbatim>\<open>TACSAssemblerPthreadInfo\<close>), with
  the members \<^verbatim>\<open>assembleRes\<close> and \<^verbatim>\<open>assembleJacobian\<close> assign. Vectors are held by
  reference: a vector is named by its address, and the store maps addresses to contents.
\<close>

record pthread_info =
  pi_tacs :: bool
  pi_res :: "nat option"

type_synonym vec_store = "nat \<Rightarrow> real list"

text \<open>
  The dependent-node table object (\<^verbatim>\<open>TACSBVecDepNodes\<close>): the three arrays handed to
  its constructor and the reference count every \<^verbatim>\<open>TACSObject\<close> carries. An object
  whose count has dropped to zero has been deleted; a pointer that still holds it dangles.
\<close>

record dep_nodes =
  depNodePtr :: "int list"
  depNodeToTacs :: "int list"
  depNodeWeights :: "real list"
  ref_count :: int

definition incref :: "dep_nodes \<Rightarrow> dep_nodes" where
  "incref d = d\<lparr>ref_count := ref_count d + 1\<rparr>"

definition decref :: "dep_nodes \<Rightarrow> dep_nodes" where
  "decref d = d\<lparr>ref_count := ref_count d - 1\<rparr>"

text \<open>One call of \<^verbatim>\<open>bcMap->addBC(node, nbcs, vars, vals)\<close>, as recorded by the map.\<close>

record bc_entry =
  bc_node :: int
  bc_nbcs :: int
  bc_vars :: "int list option"
  bc_vals :: "real list option"

text \<open>What \<^verbatim>\<open>createVec\<close> and \<^verbatim>\<open>createMat\<close> hand to the constructors of the objects
  they return.\<close>

record tacs_bvec =
  bv_ownerRange :: "int list"
  bv_bsize :: int
  bv_bcMap :: "bc_entry list"
  bv_extDist :: "int list option"
  bv_depNodes :: "dep_nodes option"

record dist_mat =
  dm_ownerRange :: "int list"
  dm_bsize :: int
  dm_numNodes :: int
  dm_rowp :: "int list"
  dm_cols :: "int list"
  dm_indices :: "int list"
  dm_bcMap :: "bc_entry list"

text \<open>
  The members of the assembler the modelled functions read or write.
  \<^verbatim>\<open>ownerRange\<close> is what \<^verbatim>\<open>varMap->getOwnerRange\<close> returns: \<^verbatim>\<open>mpiSize + 1\<close>
  node numbers, process \<open>r\<close> owning \<open>[ownerRange[r], ownerRange[r+1])\<close>.
  \<^verbatim>\<open>meshInitializedFlag\<close> is an \<^verbatim>\<open>int\<close> only ever 0 or 1 in the source.
  \<^verbatim>\<open>numThreads\<close> is what \<^verbatim>\<open>thread_info->getNumThreads()\<close> returns (1 after
  construction); the state vectors are held by address.
\<close>

record assembler =
  mpiRank :: nat
  mpiSize :: nat
  ownerRange :: "int list"
  varsPerNode :: int
  numElements :: int
  numOwnedNodes :: int
  numDependentNodes :: int
  numExtNodes :: int
  numNodes :: int
  extNodeOffset :: int
  meshInitializedFlag :: bool
  elements :: "tacs_element list option"
  elementNodeIndex :: "int list option"
  elementTacsNodes :: "int list option"
  depNodes :: "dep_nodes option"
  tacsExtNodeNums :: "int list option"
  extDistIndices :: "int list option"
  bcMap :: "bc_entry list"
  newNodeIndices :: "int list option"
  distMatIndices :: "int list option"
  auxElements :: "tacs_aux_elem list option"
  numThreads :: int
  tacsPInfo :: pthread_info
  numCompletedElements :: int
  time :: real
  varsVec :: "nat option"
  dvarsVec :: "nat option"
  ddvarsVec :: "nat option"
  xptVec :: "nat option"

definition owner_lo :: "assembler \<Rightarrow> int" where
  "owner_lo a = ownerRange a ! mpiRank a"

definition owner_hi :: "assembler \<Rightarrow> int" where
  "owner_hi a = ownerRange a ! Suc (mpiRank a)"

definition owner_end :: "assembler \<Rightarrow> int" where
  "owner_end a = ownerRange a ! mpiSize a"

text \<open>
  Modelled from the spec: \<^verbatim>\<open>TACSVarMap\<close> is not under src/. Section 4.1 has it
  form \<^verbatim>\<open>ownerRange\<close> as the prefix sums of the processes' owned-node counts.
\<close>

fun prefix_sums :: "int \<Rightarrow> int list \<Rightarrow> int list" where
  "prefix_sums s [] = [s]"
| "prefix_sums s (c # cs) = s # prefix_sums (s + c) cs"

text \<open>
  The constructor. \<open>counts\<close> is the owned-node count of every process of the
  communicator, \<open>rank\<close> this process's rank.
\<close>

definition TACSAssembler_new :: "nat \<Rightarrow> int list \<Rightarrow> int \<Rightarrow> int \<Rightarrow> int \<Rightarrow> assembler" where
  "TACSAssembler_new rank counts vpn nelems ndep =
     \<lparr> mpiRank = rank, mpiSize = length counts, ownerRange = prefix_sums 0 counts,
       varsPerNode = vpn, numElements = nelems, numOwnedNodes = counts ! rank,
       numDependentNodes = ndep, numExtNodes = 0, numNodes = 0, extNodeOffset = 0,
       meshInitializedFlag = False, elements = None, elementNodeIndex = None,
       elementTacsNodes = None, depNodes = None, tacsExtNodeNums = None,
       extDistIndices = None, bcMap = [], newNodeIndices = None, distMatIndices = None,
       auxElements = None, numThreads = 1, tacsPInfo = \<lparr> pi_tacs = False, pi_res = None \<rparr>,
       numCompletedElements = 0, time = 0,
       varsVec = None, dvarsVec = None, ddvarsVec = None, xptVec = None \<rparr>"

section \<open>Setup interface\<close>

text \<open>The first error a loop reports: the loop body returns at the first failing item.\<close>

primrec first_error :: "('a \<Rightarrow> 'e option) \<Rightarrow> 'a list \<Rightarrow> 'e option" where
  "first_error f [] = None"
| "first_error f (x # xs) = (case f x of Some e \<Rightarrow> Some e | None \<Rightarrow> first_error f xs)"

text \<open>
  The index pairs \<open>(i, j)\<close> a CSR double loop
  \<^verbatim>\<open>for (i = 0; i < n; i++) for (j = ptr[i]; j < ptr[i+1]; j++)\<close> visits, in order.
\<close>

definition csr_pairs :: "int list \<Rightarrow> int \<Rightarrow> (nat \<times> nat) list" where
  "csr_pairs ptr n =
     concat (map (\<lambda>i. map (\<lambda>j. (i, j)) [nat (ptr ! i) ..< nat (ptr ! Suc i)]) [0 ..< nat n])"

text \<open>The check of the element sizes against the connectivity (lines 310-320).\<close>

definition conn_size_check :: "nat \<Rightarrow> int list \<Rightarrow> tacs_element list \<Rightarrow> nat \<Rightarrow> (int \<times> msg) option" where
  "conn_size_check rank ptr els i =
     (if ptr ! Suc i - ptr ! i \<noteq> el_numNodes (els ! i)
      then Some (1, (rank, ''Element %s does not match connectivity''))
      else None)"

text \<open>The range check of one connectivity entry (lines 330-341).\<close>

definition conn_range_check :: "nat \<Rightarrow> int \<Rightarrow> int \<Rightarrow> int list \<Rightarrow> nat \<times> nat \<Rightarrow> (int \<times> msg) option" where
  "conn_range_check rank gsize ndep nodes ij =
     (if nodes ! snd ij \<ge> gsize
      then Some (- 1, (rank, ''Element %d contains node number out of range''))
      else if nodes ! snd ij < - ndep
      then Some (- 1, (rank, ''Element %d contains dependent node number out of range''))
      else None)"

text \<open>
  \<^verbatim>\<open>setElementConnectivity\<close> (lines 282-344). The arrays are copied into the assembler
  first and the checks then read the copies. The function has no \<^verbatim>\<open>return\<close> on its
  successful path: the result is \<open>None\<close> there.
\<close>

definition setElementConnectivity ::
  "assembler \<Rightarrow> int list \<Rightarrow> int list \<Rightarrow> int option \<times> msg list \<times> assembler" where
  "setElementConnectivity a conn ptr =
     (if meshInitializedFlag a
      then (Some 1, [(mpiRank a, ''Cannot call setElementConnectivity() after initialize()'')], a)
      else if tacsExtNodeNums a \<noteq> None
      then (Some 1, [(mpiRank a, ''Cannot call setElementConnectivity() after reordering'')], a)
      else
        let size = ptr ! nat (numElements a);
            index = take (nat (numElements a + 1)) ptr;
            nodes = take (nat size) conn;
            a' = a\<lparr>elementNodeIndex := Some index, elementTacsNodes := Some nodes\<rparr>
        in case (case elements a' of
                   None \<Rightarrow> None
                 | Some els \<Rightarrow>
                     first_error (conn_size_check (mpiRank a') index els) [0 ..< nat (numElements a')]) of
             Some (code, m) \<Rightarrow> (Some code, [m], a')
           | None \<Rightarrow>
               (case first_error
                       (conn_range_check (mpiRank a') (owner_end a') (numDependentNodes a') nodes)
                       (csr_pairs index (numElements a')) of
                  Some (code, m) \<Rightarrow> (Some code, [m], a')
                | None \<Rightarrow> (None, [], a')))"

text \<open>The check of one parent entry of the dependent-node table (lines 463-474).\<close>

definition dep_parent_check :: "nat \<Rightarrow> int \<Rightarrow> int list \<Rightarrow> nat \<times> nat \<Rightarrow> msg option" where
  "dep_parent_check rank gsize conn ij =
     (if conn ! snd ij \<ge> gsize
      then Some (rank, ''Dependent node %d contains node number out of range'')
      else if conn ! snd ij < 0
      then Some (rank, ''Dependent node %d contains dependent node %d'')
      else None)"

text \<open>
  \<^verbatim>\<open>setDependentNodes\<close> (lines 436-496). The reference to a table stored earlier is
  released before the new table is checked.
\<close>

definition setDependentNodes ::
  "assembler \<Rightarrow> int list \<Rightarrow> int list \<Rightarrow> real list \<Rightarrow> int \<times> msg list \<times> assembler" where
  "setDependentNodes a dptr dconn dweights =
     (if meshInitializedFlag a
      then (1, [(mpiRank a, ''Cannot call setDependentNodes() after initialize()'')], a)
      else if tacsExtNodeNums a \<noteq> None
      then (1, [(mpiRank a, ''Cannot call setDependentNodes() after reordering'')], a)
      else
        let a1 = a\<lparr>depNodes := map_option decref (depNodes a)\<rparr> in
        case first_error (dep_parent_check (mpiRank a1) (owner_end a1) dconn)
               (csr_pairs dptr (numDependentNodes a1)) of
          Some m \<Rightarrow> (1, [m], a1)
        | None \<Rightarrow>
            let size = dptr ! nat (numDependentNodes a1);
                d = \<lparr> depNodePtr = take (nat (numDependentNodes a1 + 1)) dptr,
                      depNodeToTacs = take (nat size) dconn,
                      depNodeWeights = take (nat size) dweights,
                      ref_count = 0 \<rparr>
            in (0, [], a1\<lparr>depNodes := Some (incref d)\<rparr>))"

text \<open>
  Modelled from the spec: \<^verbatim>\<open>TACSBcMap::addBC\<close> is not under src/. The boundary
  condition set of section 3 is kept as the list of the entries added to it.
\<close>

definition bcMap_addBC :: "bc_entry list \<Rightarrow> int \<Rightarrow> int \<Rightarrow> int list option \<Rightarrow> real list option \<Rightarrow> bc_entry list" where
  "bcMap_addBC bm node nbcs vars vals =
     bm @ [\<lparr> bc_node = node, bc_nbcs = nbcs, bc_vars = vars, bc_vals = vals \<rparr>]"

text \<open>\<^verbatim>\<open>addBCs\<close> (lines 502-529).\<close>

definition addBCs ::
  "assembler \<Rightarrow> int \<Rightarrow> int list \<Rightarrow> int \<Rightarrow> int list option \<Rightarrow> real list option \<Rightarrow> msg list \<times> assembler" where
  "addBCs a nnodes nodes nbcs vars vals =
     (if meshInitializedFlag a
      then ([(mpiRank a, ''Cannot call addBC() after initialize()'')], a)
      else
        let nbcs' = (if vars = None \<or> nbcs < 0 then varsPerNode a else nbcs) in
        ([], a\<lparr>bcMap :=
                 fold (\<lambda>i bm. if nodes ! i \<ge> owner_lo a \<and> nodes ! i < owner_hi a
                               then bcMap_addBC bm (nodes ! i) nbcs' vars vals else bm)
                   [0 ..< nat nnodes] (bcMap a)\<rparr>))"

text \<open>\<^verbatim>\<open>createVec\<close> (lines 2267-2277).\<close>

definition createVec :: "assembler \<Rightarrow> tacs_bvec option \<times> msg list \<times> assembler" where
  "createVec a =
     (if \<not> meshInitializedFlag a
      then (None, [(mpiRank a, ''Cannot call createVec() before initialize()'')], a)
      else (Some \<lparr> bv_ownerRange = ownerRange a, bv_bsize = varsPerNode a, bv_bcMap = bcMap a,
                   bv_extDist = extDistIndices a, bv_depNodes = depNodes a \<rparr>, [], a))"

section \<open>External nodes and the local index space\<close>

text \<open>
  Modelled from the spec: \<^verbatim>\<open>FElibrary::uniqueSort\<close> is not under src/. Section 4.3
  has the candidate list sorted and deduplicated; the function returns the number of
  entries kept, which is the length of the list here.
\<close>

definition uniqueSort :: "int list \<Rightarrow> int list" where
  "uniqueSort xs = remdups_adj (sort xs)"

text \<open>The test of lines 652-654 and 667-669: a non-negative node outside the owned range.\<close>

definition is_ext_node :: "assembler \<Rightarrow> int \<Rightarrow> bool" where
  "is_ext_node a node \<longleftrightarrow> node \<ge> 0 \<and> (node < owner_lo a \<or> node \<ge> owner_hi a)"

text \<open>
  \<^verbatim>\<open>elementTacsNodes\<close> is allocated together with \<^verbatim>\<open>elementNodeIndex\<close> (only
  \<^verbatim>\<open>setElementConnectivity\<close> assigns them), so it is read without a test wherever
  the index has been tested.
\<close>

definition conn_nodes :: "assembler \<Rightarrow> int list" where
  "conn_nodes a = the (elementTacsNodes a)"

definition conn_index :: "assembler \<Rightarrow> int list" where
  "conn_index a = the (elementNodeIndex a)"

text \<open>The entries of the parent array a loop \<^verbatim>\<open>for (i = 0; i < end; i++)\<close> reads.\<close>

definition dep_conn_all :: "assembler \<Rightarrow> dep_nodes \<Rightarrow> int list" where
  "dep_conn_all a d =
     map (\<lambda>i. depNodeToTacs d ! i) [0 ..< nat (depNodePtr d ! nat (numDependentNodes a))]"

definition conn_all :: "assembler \<Rightarrow> int list" where
  "conn_all a = map (\<lambda>i. conn_nodes a ! i) [0 ..< nat (conn_index a ! nat (numElements a))]"

text \<open>
  \<^verbatim>\<open>computeExtNodes\<close> (lines 613-699). The final \<^verbatim>\<open>while\<close> loop counts the
  leading entries of the sorted list that lie below the owned range.
\<close>

definition computeExtNodes :: "assembler \<Rightarrow> int \<times> msg list \<times> assembler" where
  "computeExtNodes a =
     (if meshInitializedFlag a
      then (1, [(mpiRank a, ''Cannot call computeExtNodes() after initialize()'')], a)
      else if elementNodeIndex a = None
      then (1, [(mpiRank a, ''Cannot call computeExtNodes() element connectivity not defined'')], a)
      else
        let ext1 = filter (is_ext_node a) (conn_all a);
            ext2 = (case depNodes a of
                      None \<Rightarrow> []
                    | Some d \<Rightarrow> filter (is_ext_node a) (dep_conn_all a d));
            ext = uniqueSort (ext1 @ ext2);
            n = int (length ext)
        in (0, [], a\<lparr> tacsExtNodeNums := Some ext,
                       numExtNodes := n,
                       numNodes := numOwnedNodes a + n,
                       extNodeOffset := int (length (takeWhile (\<lambda>x. x < owner_lo a) ext)) \<rparr>))"

text \<open>
  The C library's \<^verbatim>\<open>bsearch\<close> over the first \<open>n\<close> entries of an \<^verbatim>\<open>int\<close> array with
  the integer comparator: the bisection loop, returning the index found.
\<close>

function bsearch_loop :: "int \<Rightarrow> int list \<Rightarrow> nat \<Rightarrow> nat \<Rightarrow> nat option" where
  "bsearch_loop key xs l u =
     (if l < u
      then let idx = (l + u) div 2 in
           if key < xs ! idx then bsearch_loop key xs l idx
           else if key > xs ! idx then bsearch_loop key xs (Suc idx) u
           else Some idx
      else None)"
  by pat_completeness auto
termination
  by (relation "measure (\<lambda>(key, xs, l, u). u - l)") auto

declare bsearch_loop.simps [simp del]

definition bsearch :: "int \<Rightarrow> int list \<Rightarrow> nat \<Rightarrow> nat option" where
  "bsearch key xs n = bsearch_loop key xs 0 n"

text \<open>
  The external list in use: \<^verbatim>\<open>tacsExtNodeNums\<close> before \<^verbatim>\<open>initialize\<close>, the indices
  of \<^verbatim>\<open>extDistIndices\<close> after it (lines 1109-1119).
\<close>

definition ext_nodes :: "assembler \<Rightarrow> int list option" where
  "ext_nodes a = (case tacsExtNodeNums a of Some e \<Rightarrow> Some e | None \<Rightarrow> extDistIndices a)"

text \<open>
  \<^verbatim>\<open>getLocalNodeNum\<close> (lines 1099-1149) and \<^verbatim>\<open>getGlobalNodeNum\<close> (lines 1163-1209).
  Their diagnostics are not modelled; the \<open>-1\<close> they return with them is.
\<close>

definition getLocalNodeNum :: "assembler \<Rightarrow> int \<Rightarrow> int" where
  "getLocalNodeNum a node =
     (if node \<ge> owner_lo a \<and> node < owner_hi a
      then (node - owner_lo a) + extNodeOffset a
      else if node \<ge> 0
      then (case ext_nodes a of
              None \<Rightarrow> - 1
            | Some ext \<Rightarrow>
                (case bsearch node ext (nat (numExtNodes a)) of
                   Some item \<Rightarrow>
                     if node < owner_lo a then int item else numOwnedNodes a + int item
                 | None \<Rightarrow> - 1))
      else - 1)"

definition getGlobalNodeNum :: "assembler \<Rightarrow> int \<Rightarrow> int" where
  "getGlobalNodeNum a node =
     (if node < extNodeOffset a
      then (case ext_nodes a of None \<Rightarrow> - 1 | Some ext \<Rightarrow> ext ! nat node)
      else if node < extNodeOffset a + numOwnedNodes a
      then (node - extNodeOffset a) + owner_lo a
      else if node < numNodes a
      then (case ext_nodes a of
              None \<Rightarrow> - 1
            | Some ext \<Rightarrow> ext ! nat (node - numOwnedNodes a))
      else - 1)"

section \<open>Adjacency: node to element and node to node CSR structures\<close>

text \<open>
  A CSR structure is a row pointer and a column array. The functions below fill their
  arrays row by row in two passes (count, prefix sums, fill through a moving row pointer,
  shift the pointer back); the model writes what the passes leave: row \<open>i\<close> holds, in the
  order the fill loop meets them, the entries the loop appends to row \<open>i\<close>.
\<close>

definition csr_of_rows :: "int list list \<Rightarrow> int list \<times> int list" where
  "csr_of_rows rows = (prefix_sums 0 (map (\<lambda>r. int (length r)) rows), concat rows)"

definition csr_row :: "int list \<Rightarrow> int list \<Rightarrow> nat \<Rightarrow> int list" where
  "csr_row rowp cols i = map (\<lambda>jp. cols ! jp) [nat (rowp ! i) ..< nat (rowp ! Suc i)]"

text \<open>
  Modelled from the spec: \<^verbatim>\<open>matutils::SortAndUniquifyCSR\<close> is not under src/.
  Section 4.4 has every row sorted and deduplicated and the diagonal dropped on request;
  the arrays are compacted to the rows that remain.
\<close>

definition SortAndUniquifyCSR :: "int \<Rightarrow> int list \<Rightarrow> int list \<Rightarrow> bool \<Rightarrow> int list \<times> int list" where
  "SortAndUniquifyCSR nvars rowp cols nodiag =
     csr_of_rows
       (map (\<lambda>i. filter (\<lambda>c. \<not> (nodiag \<and> c = int i)) (uniqueSort (csr_row rowp cols i)))
          [0 ..< nat nvars])"

text \<open>The parents of the dependent node a negative connectivity entry names.\<close>

definition dep_parents :: "dep_nodes \<Rightarrow> int \<Rightarrow> int list" where
  "dep_parents d node =
     (let dep = nat (- node - 1) in
      map (\<lambda>kp. depNodeToTacs d ! kp) [nat (depNodePtr d ! dep) ..< nat (depNodePtr d ! Suc dep)])"

text \<open>
  The local nodes one connectivity entry stands for in \<^verbatim>\<open>computeNodeToElementCSR\<close>
  (lines 1246-1261): the node itself, or the parents of a dependent node. With no
  dependent-node table the C code reads through a null \<^verbatim>\<open>depNodePtr\<close>: \<open>None\<close>.
\<close>

definition expand_node :: "assembler \<Rightarrow> int \<Rightarrow> int list option" where
  "expand_node a node =
     (if node \<ge> 0 then Some [getLocalNodeNum a node]
      else case depNodes a of
             None \<Rightarrow> None
           | Some d \<Rightarrow> Some (map (getLocalNodeNum a) (dep_parents d node)))"

definition elem_conn :: "assembler \<Rightarrow> nat \<Rightarrow> int list" where
  "elem_conn a i = csr_row (conn_index a) (conn_nodes a) i"

definition elem_local_nodes :: "assembler \<Rightarrow> nat \<Rightarrow> int list option" where
  "elem_local_nodes a i = map_option concat (those (map (expand_node a) (elem_conn a i)))"

text \<open>
  \<^verbatim>\<open>computeNodeToElementCSR\<close> (lines 1227-1314). Row \<open>n\<close> receives element \<open>i\<close> once
  for every entry of element \<open>i\<close> that stands for local node \<open>n\<close>. A local number outside
  \<open>[0, numNodes)\<close> makes the C code write outside its arrays or into a wrong row:
  the model has no result (\<open>None\<close>) then.
\<close>

definition computeNodeToElementCSR :: "assembler \<Rightarrow> (int list \<times> int list) option" where
  "computeNodeToElementCSR a =
     (case those (map (elem_local_nodes a) [0 ..< nat (numElements a)]) of
        None \<Rightarrow> None
      | Some locs \<Rightarrow>
          if \<exists>l \<in> set (concat locs). l < 0 \<or> l \<ge> numNodes a then None
          else
            let rows = map (\<lambda>n. concat (map (\<lambda>i. map (\<lambda>l. int i) (filter (\<lambda>l. l = int n) (locs ! i)))
                                            [0 ..< nat (numElements a)]))
                         [0 ..< nat (numNodes a)];
                (ptr, n2e) = csr_of_rows rows
            in Some (SortAndUniquifyCSR (numNodes a) ptr n2e False))"

text \<open>
  The columns one element contributes to a row of \<^verbatim>\<open>computeLocalNodeToNodeCSR\<close>:
  lines 1408-1427 with a dependent-node table, lines 1472-1477 without.
\<close>

definition elem_cols :: "assembler \<Rightarrow> nat \<Rightarrow> int list" where
  "elem_cols a elem =
     (case depNodes a of
        Some d \<Rightarrow>
          concat (map (\<lambda>node. if node \<ge> 0 then [getLocalNodeNum a node]
                               else map (getLocalNodeNum a) (dep_parents d node))
                    (elem_conn a elem))
      | None \<Rightarrow> map (getLocalNodeNum a) (elem_conn a elem))"

text \<open>\<^verbatim>\<open>computeLocalNodeToNodeCSR\<close> (lines 1341-1497).\<close>

definition computeLocalNodeToNodeCSR :: "assembler \<Rightarrow> bool \<Rightarrow> (int list \<times> int list) option" where
  "computeLocalNodeToNodeCSR a nodiag =
     (case computeNodeToElementCSR a of
        None \<Rightarrow> None
      | Some (nodeElementPtr, nodeToElements) \<Rightarrow>
          let rows = map (\<lambda>i. concat (map (\<lambda>elem. elem_cols a (nat elem))
                                         (csr_row nodeElementPtr nodeToElements i)))
                       [0 ..< nat (numNodes a)];
              (rowp, cols) = csr_of_rows rows
          in Some (SortAndUniquifyCSR (numNodes a) rowp cols nodiag))"

text \<open>
  The reduced variant (lines 1519-1706): only nodes with \<open>rnodes[i] \<ge> 0\<close> get a row, the
  row of reduced number \<open>rnodes[i]\<close>, and only such nodes are kept as columns.
\<close>

definition computeLocalNodeToNodeCSR_reduced ::
  "assembler \<Rightarrow> int \<Rightarrow> int list \<Rightarrow> bool \<Rightarrow> (int list \<times> int list) option" where
  "computeLocalNodeToNodeCSR_reduced a nrnodes rnodes nodiag =
     (case computeNodeToElementCSR a of
        None \<Rightarrow> None
      | Some (nodeElementPtr, nodeToElements) \<Rightarrow>
          let rows = map (\<lambda>r. concat (map (\<lambda>i.
                           concat (map (\<lambda>elem.
                              filter (\<lambda>rn. rn \<ge> 0) (map (\<lambda>l. rnodes ! nat l) (elem_cols a (nat elem))))
                              (csr_row nodeElementPtr nodeToElements i)))
                           (filter (\<lambda>i. rnodes ! i = int r) [0 ..< nat (numNodes a)])))
                       [0 ..< nat nrnodes];
              (rowp, cols) = csr_of_rows rows
          in Some (SortAndUniquifyCSR nrnodes rowp cols nodiag))"

text \<open>
  \<^verbatim>\<open>createMat\<close> (lines 2291-2326); \<^verbatim>\<open>computeLocalNodeToNodeCSR\<close> is called with its
  default \<^verbatim>\<open>nodiag = 0\<close>. The result is \<open>None\<close> for a null pointer and also where
  the connectivity has no CSR structure.
\<close>

definition createMat :: "assembler \<Rightarrow> dist_mat option \<times> msg list \<times> assembler" where
  "createMat a =
     (if \<not> meshInitializedFlag a
      then (None, [(mpiRank a, ''Cannot call createMat() before initialize()'')], a)
      else
        let a' = (case distMatIndices a of
                    Some ix \<Rightarrow> a
                  | None \<Rightarrow> a\<lparr>distMatIndices :=
                               Some (map (\<lambda>i. getGlobalNodeNum a (int i)) [0 ..< nat (numNodes a)])\<rparr>)
        in case computeLocalNodeToNodeCSR a' False of
             None \<Rightarrow> (None, [], a')
           | Some (rowp, cols) \<Rightarrow>
               (Some \<lparr> dm_ownerRange = ownerRange a', dm_bsize = varsPerNode a',
                       dm_numNodes = numNodes a', dm_rowp = rowp, dm_cols = cols,
                       dm_indices = the (distMatIndices a'), dm_bcMap = bcMap a' \<rparr>, [], a'))"

text \<open>
  The layout of the local index space (section 3 of the specification) that
  \<^verbatim>\<open>getLocalNodeNum\<close> and \<^verbatim>\<open>getGlobalNodeNum\<close> rely on: the external list in use is
  strictly increasing and holds external nodes only, \<^verbatim>\<open>numExtNodes\<close> is its length,
  \<^verbatim>\<open>extNodeOffset\<close> the number of its entries below the owned range,
  \<^verbatim>\<open>numNodes = numOwnedNodes + numExtNodes\<close>, and the owned range has
  \<^verbatim>\<open>numOwnedNodes\<close> nodes.
\<close>

definition ext_layout :: "assembler \<Rightarrow> bool" where
  "ext_layout a \<longleftrightarrow>
     (case ext_nodes a of
        None \<Rightarrow> False
      | Some ext \<Rightarrow>
          sorted_wrt (<) ext \<and> list_all (is_ext_node a) ext \<and>
          numExtNodes a = int (length ext) \<and>
          extNodeOffset a = int (length (filter (\<lambda>g. g < owner_lo a) ext))) \<and>
     numNodes a = numOwnedNodes a + numExtNodes a \<and>
     owner_hi a - owner_lo a = numOwnedNodes a \<and> owner_lo a \<le> owner_hi a"

text \<open>The candidate list \<^verbatim>\<open>computeExtNodes\<close> collects before sorting.\<close>

definition ext_candidates :: "assembler \<Rightarrow> int list" where
  "ext_candidates a =
     filter (is_ext_node a) (conn_all a) @
     (case depNodes a of None \<Rightarrow> [] | Some d \<Rightarrow> filter (is_ext_node a) (dep_conn_all a d))"

text \<open>
  The global nodes of an element after each dependent node has been replaced by its
  independent parents, and the condition under which the CSR functions have a result:
  a dependent node occurs only when a table is stored, and \<^verbatim>\<open>getLocalNodeNum\<close> resolves
  every node of every element to a local number in \<open>[0, numNodes)\<close>.
\<close>

definition elem_global_nodes :: "assembler \<Rightarrow> nat \<Rightarrow> int list" where
  "elem_global_nodes a e =
     concat (map (\<lambda>node. if node \<ge> 0 then [node]
                           else case depNodes a of None \<Rightarrow> [] | Some d \<Rightarrow> dep_parents d node)
               (elem_conn a e))"

definition conn_resolves :: "assembler \<Rightarrow> bool" where
  "conn_resolves a \<longleftrightarrow>
     list_all (\<lambda>e. list_all (\<lambda>node. node \<ge> 0 \<or> depNodes a \<noteq> None) (elem_conn a e) \<and>
                    list_all (\<lambda>g. 0 \<le> getLocalNodeNum a g \<and> getLocalNodeNum a g < numNodes a)
                      (elem_global_nodes a e))
       [0 ..< nat (numElements a)]"

section \<open>Design variables\<close>

text \<open>
  \<^verbatim>\<open>MPI_Allreduce\<close> with \<^verbatim>\<open>TACS_MPI_MAX\<close>: every process receives the entry-wise
  maximum of the arrays the processes contribute (one array per rank, in rank order).
\<close>

definition MPI_Allreduce_MAX :: "real list list \<Rightarrow> nat \<Rightarrow> real list" where
  "MPI_Allreduce_MAX sends n = map (\<lambda>k. Max (set (map (\<lambda>s. s ! k) sends))) [0 ..< n]"

text \<open>
  The process-local part of \<^verbatim>\<open>getDesignVars\<close> (lines 2188-2200): \<^verbatim>\<open>tempDVs\<close> after
  the elements, then the auxiliary elements, have written their values.
\<close>

definition getDesignVars_local :: "assembler \<Rightarrow> int \<Rightarrow> real list" where
  "getDesignVars_local a numDVs =
     (let t0 = replicate (nat numDVs) 0;
          t1 = fold (\<lambda>i t. el_getDesignVars (the (elements a) ! i) t numDVs)
                 [0 ..< nat (numElements a)] t0
      in case auxElements a of
           None \<Rightarrow> t1
         | Some aux \<Rightarrow> fold (\<lambda>x t. el_getDesignVars (aux_elem x) t numDVs) aux t1)"

text \<open>
  \<^verbatim>\<open>getDesignVars\<close> (lines 2188-2207), called collectively by the processes \<open>procs\<close>
  (in rank order): the array every process gets back.
\<close>

definition getDesignVars :: "assembler list \<Rightarrow> int \<Rightarrow> real list" where
  "getDesignVars procs numDVs =
     MPI_Allreduce_MAX (map (\<lambda>a. getDesignVars_local a numDVs) procs) (nat numDVs)"

text \<open>
  \<^verbatim>\<open>getDesignVarRange\<close> (lines 2241-2253): the elements, then the auxiliary elements,
  write their bounds into the caller's arrays. The function makes no MPI call.
\<close>

definition getDesignVarRange ::
  "assembler \<Rightarrow> real list \<Rightarrow> real list \<Rightarrow> int \<Rightarrow> real list \<times> real list" where
  "getDesignVarRange a lb ub numDVs =
     (let r1 = fold (\<lambda>i (l, u). el_getDesignVarRange (the (elements a) ! i) l u numDVs)
                 [0 ..< nat (numElements a)] (lb, ub)
      in case auxElements a of
           None \<Rightarrow> r1
         | Some aux \<Rightarrow> fold (\<lambda>x (l, u). el_getDesignVarRange (aux_elem x) l u numDVs) aux r1)"

section \<open>Reordering\<close>

datatype OrderingType = NATURAL_ORDER | RCM_ORDER | AMD_ORDER | ND_ORDER | TACS_AMD_ORDER

datatype MatrixOrderingType = ADDITIVE_SCHWARZ | APPROXIMATE_SCHUR | DIRECT_SCHUR

text \<open>
  The ordering back ends are not under src/ (\<^verbatim>\<open>matutils::ComputeRCMOrder\<close>,
  \<^verbatim>\<open>amd_order\<close>, \<^verbatim>\<open>METIS_NodeND\<close>, \<^verbatim>\<open>amd_order_interface\<close>): they are parameters.
  Each takes the number of variables and the CSR arrays; \<^verbatim>\<open>ComputeRCMOrder\<close> returns the
  new variable numbers it writes, the two minimum-degree back ends the permutation they
  write, \<^verbatim>\<open>METIS_NodeND\<close> the permutation and its inverse.
\<close>

record order_backends =
  be_ComputeRCMOrder :: "int \<Rightarrow> int list \<Rightarrow> int list \<Rightarrow> int list"
  be_amd_order :: "int \<Rightarrow> int list \<Rightarrow> int list \<Rightarrow> int list"
  be_METIS_NodeND :: "int \<Rightarrow> int list \<Rightarrow> int list \<Rightarrow> int list \<times> int list"
  be_amd_order_interface :: "int \<Rightarrow> int list \<Rightarrow> int list \<Rightarrow> int list"

text \<open>The loop \<^verbatim>\<open>new_vars[_perm[k]] = k\<close> (lines 1044-1046, 1064-1066).\<close>

definition invert_perm :: "int list \<Rightarrow> nat \<Rightarrow> int list \<Rightarrow> int list" where
  "invert_perm perm n new_vars = fold (\<lambda>k nv. nv[nat (perm ! k) := int k]) [0 ..< n] new_vars"

text \<open>
  \<^verbatim>\<open>computeMatReordering\<close> (lines 1014-1084) as \<^verbatim>\<open>computeReordering\<close> calls it, with
  \<^verbatim>\<open>perm = NULL\<close>: the contents of \<^verbatim>\<open>new_vars\<close> after the call, from its contents before.
\<close>

definition computeMatReordering ::
  "order_backends \<Rightarrow> OrderingType \<Rightarrow> int \<Rightarrow> int list \<Rightarrow> int list \<Rightarrow> int list \<Rightarrow> int list" where
  "computeMatReordering be order_type nvars rowp cols new_vars =
     (case order_type of
        RCM_ORDER \<Rightarrow> be_ComputeRCMOrder be nvars rowp cols
      | AMD_ORDER \<Rightarrow> invert_perm (be_amd_order be nvars rowp cols) (nat nvars) new_vars
      | ND_ORDER \<Rightarrow> snd (be_METIS_NodeND be nvars rowp cols)
      | TACS_AMD_ORDER \<Rightarrow> invert_perm (be_amd_order_interface be nvars rowp cols) (nat nvars) new_vars
      | NATURAL_ORDER \<Rightarrow> fold (\<lambda>k nv. nv[k := int k]) [0 ..< nat nvars] new_vars)"

text \<open>
  \<^verbatim>\<open>computeCouplingNodes\<close> (lines 1726-1823): the local numbers of the coupling nodes.
  \<open>recvNodes\<close> is what \<^verbatim>\<open>MPI_Alltoallv\<close> delivers: the global numbers of the nodes of this
  process that the other processes hold as external nodes. The interval matching and the
  counts only shape the messages and are not modelled.
\<close>

definition computeCouplingNodes :: "assembler \<Rightarrow> int list \<Rightarrow> int list" where
  "computeCouplingNodes a recvNodes =
     map int [0 ..< nat (extNodeOffset a)] @
     map (getLocalNodeNum a) (uniqueSort recvNodes) @
     map (\<lambda>i. numOwnedNodes a + int i) [nat (extNodeOffset a) ..< nat (numExtNodes a)]"

text \<open>The loops of \<^verbatim>\<open>computeReordering\<close> over \<^verbatim>\<open>reducedNodes\<close> and \<^verbatim>\<open>newNodeNums\<close>.\<close>

definition mark_nodes :: "int list \<Rightarrow> int list \<Rightarrow> int list" where
  "mark_nodes nodes r = fold (\<lambda>node r. r[nat node := - 1]) nodes r"

definition number_reduced :: "int list \<Rightarrow> nat \<Rightarrow> int list \<times> int" where
  "number_reduced r n =
     fold (\<lambda>i (r, c). if r ! i \<ge> 0 then (r[i := c], c + 1) else (r, c)) [0 ..< n] (r, 0)"

definition number_remaining :: "int list \<Rightarrow> nat \<Rightarrow> nat \<Rightarrow> int list \<times> int" where
  "number_remaining r l u =
     fold (\<lambda>i (r, c). if r ! i < 0 then (r[i := c], c + 1) else (r[i := - 1], c)) [l ..< u] (r, 0)"

definition place_reduced :: "int list \<Rightarrow> int list \<Rightarrow> int \<Rightarrow> nat \<Rightarrow> int list \<Rightarrow> int list" where
  "place_reduced r newReduced offset n newNodeNums =
     fst (fold (\<lambda>i (nn, j). if r ! i \<ge> 0 then (nn[i := offset + newReduced ! j], Suc j) else (nn, j))
            [0 ..< n] (newNodeNums, 0))"

text \<open>
  Lines 754-904: the new numbers of the nodes this process orders. \<open>junk\<close> stands for the
  indeterminate contents of freshly allocated arrays. The result is \<open>None\<close> where a CSR
  structure has none.
\<close>

definition reorder_local ::
  "order_backends \<Rightarrow> int \<Rightarrow> assembler \<Rightarrow> int list \<Rightarrow> OrderingType \<Rightarrow> MatrixOrderingType \<Rightarrow>
   int list option" where
  "reorder_local be junk a couplingNodes order_type mat_type =
     (let n = nat (numNodes a);
          newNodeNums = replicate n junk;
          noDiagonal = (order_type = ND_ORDER)
      in
      if mpiSize a = 1 then
        (case computeLocalNodeToNodeCSR a noDiagonal of
           None \<Rightarrow> None
         | Some (rowp, cols) \<Rightarrow>
             Some (computeMatReordering be order_type (numNodes a) rowp cols newNodeNums))
      else
        let r0 = replicate n 0;
            r1 = fold (\<lambda>i r. r[i := - 1]) [0 ..< nat (extNodeOffset a)] r0;
            r2 = fold (\<lambda>i r. r[i := - 1]) [nat (extNodeOffset a + numOwnedNodes a) ..< n] r1
        in
        case (case mat_type of
                DIRECT_SCHUR \<Rightarrow> Some (mark_nodes couplingNodes r2)
              | APPROXIMATE_SCHUR \<Rightarrow>
                  (case computeLocalNodeToNodeCSR a False of
                     None \<Rightarrow> None
                   | Some (rowp, cols) \<Rightarrow>
                       Some (fold (\<lambda>node r. mark_nodes (csr_row rowp cols (nat node)) r)
                               couplingNodes r2))
              | ADDITIVE_SCHWARZ \<Rightarrow> Some r2) of
          None \<Rightarrow> None
        | Some r3 \<Rightarrow>
            let (r4, numReducedNodes) = number_reduced r3 n in
            (case computeLocalNodeToNodeCSR_reduced a numReducedNodes r4 noDiagonal of
               None \<Rightarrow> None
             | Some (rowp, cols) \<Rightarrow>
                 let newReducedNodes =
                       computeMatReordering be order_type numReducedNodes rowp cols
                         (replicate (nat numReducedNodes) junk);
                     nn1 = place_reduced r4 newReducedNodes (owner_lo a) n newNodeNums;
                     offset = owner_lo a + numReducedNodes;
                     (r5, numReducedNodes2) =
                       number_remaining r4 (nat (extNodeOffset a))
                         (nat (extNodeOffset a + numOwnedNodes a))
                 in
                 if numReducedNodes2 > 0 then
                   (case computeLocalNodeToNodeCSR_reduced a numReducedNodes2 r5 noDiagonal of
                      None \<Rightarrow> None
                    | Some (rowp2, cols2) \<Rightarrow>
                        let newReducedNodes2 =
                              computeMatReordering be order_type numReducedNodes2 rowp2 cols2
                                (replicate (nat numReducedNodes2) junk)
                        in Some (place_reduced r5 newReducedNodes2 offset n nn1))
                 else Some nn1))"

text \<open>
  Lines 911-982: the numbers of the external nodes arrive from their owners
  (\<open>newExtNodes\<close>, what the second \<^verbatim>\<open>MPI_Alltoallv\<close> delivers), and the dependent-node
  parents, the connectivity, the boundary-condition nodes and the external list are
  rewritten in the new numbering.
\<close>

definition renumber_prefix :: "(int \<Rightarrow> int) \<Rightarrow> nat \<Rightarrow> int list \<Rightarrow> int list" where
  "renumber_prefix f n xs = map f (take n xs) @ drop n xs"

definition apply_reordering :: "assembler \<Rightarrow> int list \<Rightarrow> int list \<Rightarrow> assembler" where
  "apply_reordering a newNodeNums newExtNodes =
     (let nn1 = fold (\<lambda>i nn. nn[i := newExtNodes ! i]) [0 ..< nat (extNodeOffset a)] newNodeNums;
          nn = fold (\<lambda>i nn. nn[nat (int i + numOwnedNodes a) := newExtNodes ! i])
                 [nat (extNodeOffset a) ..< nat (numExtNodes a)] nn1;
          new = (\<lambda>node. nn ! nat (getLocalNodeNum a node))
      in a\<lparr> depNodes :=
               map_option
                 (\<lambda>d. d\<lparr>depNodeToTacs :=
                          renumber_prefix new (nat (depNodePtr d ! nat (numDependentNodes a)))
                            (depNodeToTacs d)\<rparr>)
                 (depNodes a),
             elementTacsNodes :=
               Some (renumber_prefix (\<lambda>node. if node \<ge> 0 then new node else node)
                       (nat (conn_index a ! nat (numElements a))) (conn_nodes a)),
             bcMap := map (\<lambda>b. b\<lparr>bc_node := new (bc_node b)\<rparr>) (bcMap a),
             tacsExtNodeNums :=
               Some (uniqueSort
                       (map (\<lambda>i. nn ! i) [0 ..< nat (extNodeOffset a)] @
                        map (\<lambda>i. nn ! nat (int i + numOwnedNodes a))
                          [nat (extNodeOffset a) ..< nat (numExtNodes a)])),
             newNodeIndices := Some nn \<rparr>)"

text \<open>\<^verbatim>\<open>computeReordering\<close> (lines 724-990).\<close>

definition computeReordering ::
  "order_backends \<Rightarrow> int \<Rightarrow> int list \<Rightarrow> int list \<Rightarrow> assembler \<Rightarrow> OrderingType \<Rightarrow>
   MatrixOrderingType \<Rightarrow> assembler option" where
  "computeReordering be junk recvNodes newExtNodes a order_type mat_type =
     (if elementNodeIndex a = None then Some a
      else if tacsExtNodeNums a \<noteq> None then Some a
      else
        let a1 = snd (snd (computeExtNodes a));
            couplingNodes = computeCouplingNodes a1 recvNodes
        in case reorder_local be junk a1 couplingNodes order_type mat_type of
             None \<Rightarrow> None
           | Some newNodeNums \<Rightarrow> Some (apply_reordering a1 newNodeNums newExtNodes))"

text \<open>
  What section 8 of the specification asks of every back end: the array returned for
  \<open>n\<close> variables is a permutation of \<open>0, ..., n - 1\<close>.
\<close>

definition is_perm :: "int \<Rightarrow> int list \<Rightarrow> bool" where
  "is_perm n xs \<longleftrightarrow> length xs = nat n \<and> set xs = {0 ..< n}"

definition backends_ok :: "order_backends \<Rightarrow> bool" where
  "backends_ok be \<longleftrightarrow>
     (\<forall>n rowp cols.
        is_perm n (be_ComputeRCMOrder be n rowp cols) \<and>
        is_perm n (be_amd_order be n rowp cols) \<and>
        is_perm n (snd (be_METIS_NodeND be n rowp cols)) \<and>
        is_perm n (be_amd_order_interface be n rowp cols))"

text \<open>The number of non-negative entries of \<^verbatim>\<open>reducedNodes\<close> before position \<open>k\<close>.\<close>

definition cnt :: "int list \<Rightarrow> nat \<Rightarrow> nat" where
  "cnt r k = length (filter (\<lambda>x. x \<ge> 0) (take k r))"

text \<open>
  \<^verbatim>\<open>getReordering\<close> (lines 2108-2122): the new number of every owned node, in the
  order of the old numbers (\<^verbatim>\<open>memcpy\<close> from \<^verbatim>\<open>newNodes[extNodeOffset]\<close>).
\<close>

definition getReordering :: "assembler \<Rightarrow> int list" where
  "getReordering a =
     (case newNodeIndices a of
        Some newNodes \<Rightarrow>
          map (\<lambda>k. newNodes ! (nat (extNodeOffset a) + k)) [0 ..< nat (numOwnedNodes a)]
      | None \<Rightarrow> map (\<lambda>k. owner_lo a + int k) [0 ..< nat (numOwnedNodes a)])"

section \<open>Residual assembly\<close>

text \<open>
  The vector class \<^verbatim>\<open>TACSBVec\<close> is not under src/. Its operations used by
  \<^verbatim>\<open>assembleRes\<close> are parameters acting on the contents of a vector:
  \<^verbatim>\<open>getValues(len, nodes, out)\<close>, \<^verbatim>\<open>setValues(len, nodes, vals, ADD_VALUES)\<close>, the pair
  \<^verbatim>\<open>beginSetValues(ADD_VALUES)\<close>/\<^verbatim>\<open>endSetValues(ADD_VALUES)\<close> (the add-reduction across
  processes, as this process sees it) and \<^verbatim>\<open>applyBCs(vars)\<close>.
\<close>

record bvec_ops =
  vo_getValues :: "real list \<Rightarrow> int list \<Rightarrow> real list"
  vo_setValuesAdd :: "real list \<Rightarrow> int list \<Rightarrow> real list \<Rightarrow> real list"
  vo_reduceAdd :: "real list \<Rightarrow> real list"
  vo_applyBCs :: "real list \<Rightarrow> real list \<Rightarrow> real list"

text \<open>
  Modelled from the spec: \<^verbatim>\<open>TACSBVec::zeroEntries\<close> is not under src/. It is the
  \<open>ZeroAccumulators\<close> step of section 4.6: every entry becomes zero.
\<close>

definition zeroEntries :: "real list \<Rightarrow> real list" where
  "zeroEntries v = map (\<lambda>x. 0) v"

text \<open>
  Modelled from the spec: \<^verbatim>\<open>TACSAuxElements::sort\<close> is not under src/. The comment
  at its call has it sort the list of auxiliary elements; the loop of lines 2774-2778
  needs them in the order of their element numbers.
\<close>

definition aux_sort :: "tacs_aux_elem list \<Rightarrow> tacs_aux_elem list" where
  "aux_sort aux = sort_key aux_num aux"

text \<open>
  Lines 2759-2771: the residual of element \<open>i\<close> from the state gathered at its nodes,
  added into a zeroed buffer of \<^verbatim>\<open>numVariables\<close> entries.
\<close>

definition gather :: "bvec_ops \<Rightarrow> vec_store \<Rightarrow> nat option \<Rightarrow> int list \<Rightarrow> real list" where
  "gather ops st v nodes = vo_getValues ops (st (the v)) nodes"

definition element_residual :: "bvec_ops \<Rightarrow> assembler \<Rightarrow> vec_store \<Rightarrow> nat \<Rightarrow> real list" where
  "element_residual ops a st i =
     (let nodes = elem_conn a i;
          el = the (elements a) ! i
      in el_addResidual el (time a) (replicate (nat (el_numVariables el)) 0)
           (gather ops st (xptVec a) nodes) (gather ops st (varsVec a) nodes)
           (gather ops st (dvarsVec a) nodes) (gather ops st (ddvarsVec a) nodes))"

definition aux_residual ::
  "bvec_ops \<Rightarrow> assembler \<Rightarrow> vec_store \<Rightarrow> nat \<Rightarrow> tacs_aux_elem \<Rightarrow> real list \<Rightarrow> real list" where
  "aux_residual ops a st i x res =
     (let nodes = elem_conn a i
      in el_addResidual (aux_elem x) (time a) res
           (gather ops st (xptVec a) nodes) (gather ops st (varsVec a) nodes)
           (gather ops st (dvarsVec a) nodes) (gather ops st (ddvarsVec a) nodes))"

text \<open>
  The loop of lines 2774-2778 over the auxiliary elements not yet used (those from
  \<^verbatim>\<open>aux_count\<close> on): it returns the residual and the auxiliary elements left.
\<close>

fun aux_loop ::
  "(tacs_aux_elem \<Rightarrow> real list \<Rightarrow> real list) \<Rightarrow> int \<Rightarrow> tacs_aux_elem list \<Rightarrow> real list \<Rightarrow>
   real list \<times> tacs_aux_elem list" where
  "aux_loop f i [] res = (res, [])"
| "aux_loop f i (x # xs) res =
     (if aux_num x = i then aux_loop f i xs (f x res) else (res, x # xs))"

text \<open>The serial element loop (lines 2757-2782) on the vector at address \<open>r\<close>.\<close>

definition serial_loop :: "bvec_ops \<Rightarrow> assembler \<Rightarrow> vec_store \<Rightarrow> nat \<Rightarrow> vec_store" where
  "serial_loop ops a st r =
     fst (fold (\<lambda>i (st, aux).
                  let (elemRes, aux') =
                        aux_loop (aux_residual ops a st i) (int i) aux (element_residual ops a st i)
                  in (st(r := vo_setValuesAdd ops (st r) (elem_conn a i) elemRes), aux'))
            [0 ..< nat (numElements a)]
            (st, case auxElements a of None \<Rightarrow> [] | Some aux \<Rightarrow> aux))"

text \<open>
  Modelled from the spec: \<^verbatim>\<open>assembleRes_thread\<close> is not under src/. Section 4.6 has
  the worker threads claim the element indices one by one under the mutex, compute each
  element's contribution (with the auxiliary elements of that index) and merge it, under
  the mutex, into the shared accumulator. A thread receives only the argument block
  \<^verbatim>\<open>tacsPInfo\<close>: the accumulator is the vector \<^verbatim>\<open>tacsPInfo->res\<close> points to, and a null
  pointer there has no result. \<open>sched\<close> is the order in which the scheduler lets the
  merges happen, a permutation of the element indices.
\<close>

definition threaded_loop ::
  "bvec_ops \<Rightarrow> nat list \<Rightarrow> assembler \<Rightarrow> vec_store \<Rightarrow> vec_store option" where
  "threaded_loop ops sched a st =
     (case pi_res (tacsPInfo a) of
        None \<Rightarrow> None
      | Some res \<Rightarrow>
          Some (fold (\<lambda>i st.
                        let aux = (case auxElements a of None \<Rightarrow> [] | Some aux \<Rightarrow> aux);
                            elemRes = fold (aux_residual ops a st i)
                                        (filter (\<lambda>x. aux_num x = int i) aux)
                                        (element_residual ops a st i)
                        in st(res := vo_setValuesAdd ops (st res) (elem_conn a i) elemRes))
                  sched st))"

text \<open>
  \<^verbatim>\<open>assembleRes\<close> (lines 2709-2791) on the vector at address \<open>residual\<close>. The threaded
  branch assigns \<^verbatim>\<open>numCompletedElements\<close> and \<^verbatim>\<open>tacsPInfo->tacs\<close> and no other member
  of \<^verbatim>\<open>tacsPInfo\<close> before it starts the threads.
\<close>

definition assembleRes ::
  "bvec_ops \<Rightarrow> nat list \<Rightarrow> assembler \<Rightarrow> vec_store \<Rightarrow> nat \<Rightarrow> (assembler \<times> vec_store) option" where
  "assembleRes ops sched a st residual =
     (let a1 = a\<lparr>auxElements := map_option aux_sort (auxElements a)\<rparr>;
          st1 = st(residual := zeroEntries (st residual));
          finish = (\<lambda>a' st2.
                      let st3 = st2(residual := vo_reduceAdd ops (st2 residual));
                          st4 = st3(residual := vo_applyBCs ops (st3 residual) (st3 (the (varsVec a'))))
                      in Some (a', st4))
      in
      if numThreads a1 > 1 then
        let a2 = a1\<lparr>numCompletedElements := 0,
                    tacsPInfo := (tacsPInfo a1)\<lparr>pi_tacs := True\<rparr>\<rparr>
        in case threaded_loop ops sched a2 st1 of
             None \<Rightarrow> None
           | Some st2 \<Rightarrow> finish (a2\<lparr>numCompletedElements := numElements a2\<rparr>) st2
      else finish a1 (serial_loop ops a1 st1 residual))"

section \<open>Example assemblers\<close>

text \<open>One process owning nodes 0 and 1, one two-node element, connectivity set.\<close>

definition ex_conn_a0 :: assembler where
  "ex_conn_a0 = snd (snd (setElementConnectivity (TACSAssembler_new 0 [2] 1 1 0) [0, 1] [0, 2]))"


text \<open>The same two processes, with a valid dependent-node table stored before any reordering.\<close>

definition ex_dep_a1 :: assembler where
  "ex_dep_a1 = snd (snd (setDependentNodes (TACSAssembler_new 0 [2, 1] 1 1 1) [0, 2] [0, 2] [1 / 2, 1 / 2]))"

text \<open>
  Rank 1 of three processes owning two nodes each (it owns nodes 2 and 3), with elements
  \<open>(1, 2)\<close> and \<open>(3, d)\<close>, where the dependent node \<open>d\<close> has the parents 0 and 5.
\<close>

definition ex_ext_a0 :: assembler where
  "ex_ext_a0 =
     snd (snd (setDependentNodes
       (snd (snd (setElementConnectivity (TACSAssembler_new 1 [2, 2, 2] 1 2 1) [1, 2, 3, - 1] [0, 2, 4])))
       [0, 2] [0, 5] [1 / 2, 1 / 2]))"

definition ex_ext_a1 :: assembler where
  "ex_ext_a1 = snd (snd (computeExtNodes ex_ext_a0))"

text \<open>
  Two processes with one element each and one design variable, whose value and bounds
  the two elements report differently: value 3 and range \<open>[1, 5]\<close> on rank 0, value 4 and
  range \<open>[2, 4]\<close> on rank 1.
\<close>

definition ex_dv_element :: "real \<Rightarrow> real \<Rightarrow> real \<Rightarrow> tacs_element" where
  "ex_dv_element x l u =
     \<lparr> el_numNodes = 2, el_numVariables = 2, el_numDisplacements = 1,
       el_getDesignVars = (\<lambda>dvs n. dvs[0 := x]),
       el_getDesignVarRange = (\<lambda>lb ub n. (lb[0 := l], ub[0 := u])),
       el_addResidual = (\<lambda>t res X v dv ddv. res) \<rparr>"

definition ex_dv_p0 :: assembler where
  "ex_dv_p0 = (TACSAssembler_new 0 [2, 2] 1 1 0)\<lparr>elements := Some [ex_dv_element 3 1 5]\<rparr>"

definition ex_dv_p1 :: assembler where
  "ex_dv_p1 = (TACSAssembler_new 1 [2, 2] 1 1 0)\<lparr>elements := Some [ex_dv_element 4 2 4]\<rparr>"

text \<open>
  Rank 1 of two processes: it owns nodes 1 to 4 of a chain of four elements; rank 0 owns
  node 0 and holds nodes 1 and 3 as external nodes. The back ends of the example all
  reverse the natural order.
\<close>

definition ex_ro_a0 :: assembler where
  "ex_ro_a0 =
     snd (snd (setElementConnectivity (TACSAssembler_new 1 [1, 4] 1 4 0)
                 [0, 1, 1, 2, 2, 3, 3, 4] [0, 2, 4, 6, 8]))"

definition ex_backends :: order_backends where
  "ex_backends =
     \<lparr> be_ComputeRCMOrder = (\<lambda>n rowp cols. rev (map int [0 ..< nat n])),
       be_amd_order = (\<lambda>n rowp cols. rev (map int [0 ..< nat n])),
       be_METIS_NodeND = (\<lambda>n rowp cols. (rev (map int [0 ..< nat n]), rev (map int [0 ..< nat n]))),
       be_amd_order_interface = (\<lambda>n rowp cols. rev (map int [0 ..< nat n])) \<rparr>"

text \<open>
  One process, nodes 0 to 2, two elements \<open>(0, 1)\<close> and \<open>(1, 2)\<close> whose residual kernel adds
  1 at each of its two nodes, one variable per node, no boundary conditions; the vector
  operations of a single process. The state vectors live at addresses 1 to 4, the
  residual to assemble at address 5 (holding 7, 7, 7 before the call), another residual
  vector at address 9.
\<close>

definition ex_res_ops :: bvec_ops where
  "ex_res_ops =
     \<lparr> vo_getValues = (\<lambda>v nodes. map (\<lambda>n. v ! nat n) nodes),
       vo_setValuesAdd = (\<lambda>v nodes vals. fold (\<lambda>(n, x) v. v[nat n := v ! nat n + x]) (zip nodes vals) v),
       vo_reduceAdd = (\<lambda>v. v),
       vo_applyBCs = (\<lambda>v vars. v) \<rparr>"

definition ex_res_element :: tacs_element where
  "ex_res_element =
     \<lparr> el_numNodes = 2, el_numVariables = 2, el_numDisplacements = 1,
       el_getDesignVars = (\<lambda>dvs n. dvs),
       el_getDesignVarRange = (\<lambda>lb ub n. (lb, ub)),
       el_addResidual = (\<lambda>t res X v dv ddv. map (\<lambda>x. x + 1) res) \<rparr>"

definition ex_res_a :: assembler where
  "ex_res_a =
     (TACSAssembler_new 0 [3] 1 2 0)
       \<lparr> elementNodeIndex := Some [0, 2, 4], elementTacsNodes := Some [0, 1, 1, 2],
         elements := Some [ex_res_element, ex_res_element],
         meshInitializedFlag := True, numNodes := 3, extDistIndices := Some [],
         varsVec := Some 1, dvarsVec := Some 2, ddvarsVec := Some 3, xptVec := Some 4 \<rparr>"

definition ex_res_store :: vec_store where
  "ex_res_store = (\<lambda>h. [0, 0, 0])(5 := [7, 7, 7])"

text \<open>
  The same assembler set to two threads, its argument block still pointing at the
  vector at address 9, as a threaded \<^verbatim>\<open>assembleJacobian\<close> on that vector leaves it
  (line 2832).
\<close>

definition ex_res_a2 :: assembler where
  "ex_res_a2 = ex_res_a\<lparr>numThreads := 2, tacsPInfo := \<lparr> pi_tacs = True, pi_res = Some 9 \<rparr>\<rparr>"

section \<open>Properties\<close>

lemmas ev = eval_nat_numeral upt_conv_Cons nat_numeral

subsection \<open>Setup interface\<close>

lemma first_error_None_iff: "first_error f xs = None \<longleftrightarrow> (\<forall>x \<in> set xs. f x = None)"
  by (induction xs) (auto split: option.splits)

lemma first_error_Some_in: "first_error f xs = Some e \<Longrightarrow> \<exists>x \<in> set xs. f x = Some e"
  by (induction xs) (auto split: option.splits)

lemma csr_pairs_mem:
  "(i, j) \<in> set (csr_pairs ptr n) \<longleftrightarrow> i < nat n \<and> nat (ptr ! i) \<le> j \<and> j < nat (ptr ! Suc i)"
  by (auto simp: csr_pairs_def image_iff)

lemma ex_conn_a0_eq:
  "ex_conn_a0 = (TACSAssembler_new 0 [2] 1 1 0)\<lparr>elementNodeIndex := Some [0, 2], elementTacsNodes := Some [0, 1]\<rparr>"
  by (simp add: ex_conn_a0_def setElementConnectivity_def TACSAssembler_new_def Let_def
      csr_pairs_def conn_range_check_def owner_end_def ev)


text \<open>
  C6, as stated, fails: a call before \<^verbatim>\<open>initialize\<close> with node 5 in a mesh of 2 nodes
  returns \<open>-1\<close>, and the stored connectivity is the new one, not the one stored before.
\<close>

theorem setElementConnectivity_commits_counterexample:
  "\<not> meshInitializedFlag ex_conn_a0 \<and> owner_end ex_conn_a0 = 2 \<and>
   elementTacsNodes ex_conn_a0 = Some [0, 1] \<and>
   fst (setElementConnectivity ex_conn_a0 [0, 5] [0, 2]) = Some (- 1) \<and>
   elementTacsNodes (snd (snd (setElementConnectivity ex_conn_a0 [0, 5] [0, 2]))) = Some [0, 5] \<and>
   elementTacsNodes (snd (snd (setElementConnectivity ex_conn_a0 [0, 5] [0, 2]))) \<noteq>
     elementTacsNodes ex_conn_a0"
  by (simp add: ex_conn_a0_eq setElementConnectivity_def TACSAssembler_new_def Let_def
      csr_pairs_def conn_range_check_def owner_end_def ev)

lemma conn_size_check_code:
  "conn_size_check r p els i = Some (c, m) \<Longrightarrow>
   c = 1 \<and> m = (r, ''Element %s does not match connectivity'')"
  by (auto simp: conn_size_check_def split: if_splits)

lemma conn_range_check_code:
  "conn_range_check r g nd ns ij = Some (c, m) \<Longrightarrow>
   c = - 1 \<and> fst m = r \<and>
   (snd m = ''Element %d contains node number out of range'' \<or>
    snd m = ''Element %d contains dependent node number out of range'')"
  by (auto simp: conn_range_check_def split: if_splits)

text \<open>
  C6, amended: called before \<^verbatim>\<open>initialize\<close> and before any reordering with an entry
  \<open>j\<close> of some element \<open>i\<close> that is at or above the global node count or below
  \<open>-numDependentNodes\<close>, \<^verbatim>\<open>setElementConnectivity\<close> reports one error tagged with
  the rank and returns a nonzero code: 1, with the element-size message, when the elements
  are set and the size of some element differs from its \<^verbatim>\<open>numNodes()\<close>; \<open>-1\<close>, with one
  of the two out-of-range messages, otherwise. The arrays have been copied by then: the
  stored connectivity is the supplied one, and no other member has changed.
\<close>

theorem setElementConnectivity_out_of_range:
  assumes pre: "\<not> meshInitializedFlag a" "tacsExtNodeNums a = None"
    and ij: "i < nat (numElements a)" "nat (ptr ! i) \<le> j" "j < nat (ptr ! Suc i)"
      "j < nat (ptr ! nat (numElements a))"
    and bad: "conn ! j \<ge> owner_end a \<or> conn ! j < - numDependentNodes a"
  shows "\<exists>code m. setElementConnectivity a conn ptr =
           (Some code, [m],
            a\<lparr>elementNodeIndex := Some (take (nat (numElements a + 1)) ptr),
              elementTacsNodes := Some (take (nat (ptr ! nat (numElements a))) conn)\<rparr>) \<and>
         fst m = mpiRank a \<and>
         (if \<exists>els. elements a = Some els \<and>
               (\<exists>k < nat (numElements a). ptr ! Suc k - ptr ! k \<noteq> el_numNodes (els ! k))
          then code = 1 \<and> snd m = ''Element %s does not match connectivity''
          else code = - 1 \<and>
               (snd m = ''Element %d contains node number out of range'' \<or>
                snd m = ''Element %d contains dependent node number out of range''))"
proof -
  let ?n = "nat (numElements a)"
  let ?index = "take (nat (numElements a + 1)) ptr"
  let ?nodes = "take (nat (ptr ! nat (numElements a))) conn"
  let ?a' = "a\<lparr>elementNodeIndex := Some ?index, elementTacsNodes := Some ?nodes\<rparr>"
  let ?rc = "conn_range_check (mpiRank a) (owner_end a) (numDependentNodes a) ?nodes"
  let ?sb = "\<lambda>els. \<exists>k < ?n. ptr ! Suc k - ptr ! k \<noteq> el_numNodes (els ! k)"
  have oe: "owner_end ?a' = owner_end a" by (simp add: owner_end_def)
  have idxk: "?index ! k = ptr ! k \<and> ?index ! Suc k = ptr ! Suc k" if "k < ?n" for k
    using that by (simp add: nat_add_distrib)
  have sc: "first_error (conn_size_check (mpiRank a) ?index els) [0 ..< ?n] = None \<longleftrightarrow> \<not> ?sb els"
    for els
    by (auto simp: first_error_None_iff conn_size_check_def idxk)
  have mem: "(i, j) \<in> set (csr_pairs ?index (numElements a))"
    using ij idxk [OF ij(1)] by (simp add: csr_pairs_mem)
  have "?rc (i, j) \<noteq> None"
    using bad ij(4) by (auto simp: conn_range_check_def)
  then have "first_error ?rc (csr_pairs ?index (numElements a)) \<noteq> None"
    using mem by (auto simp: first_error_None_iff)
  then obtain c m where cm: "first_error ?rc (csr_pairs ?index (numElements a)) = Some (c, m)"
    by auto
  have "\<exists>x \<in> set (csr_pairs ?index (numElements a)). ?rc x = Some (c, m)"
    by (rule first_error_Some_in [OF cm])
  then have cm': "c = - 1" "fst m = mpiRank a"
    "snd m = ''Element %d contains node number out of range'' \<or>
     snd m = ''Element %d contains dependent node number out of range''"
    using conn_range_check_code by blast+
  show ?thesis
  proof (cases "elements a")
    case None
    then show ?thesis
      using pre cm cm' by (simp add: setElementConnectivity_def Let_def oe)
  next
    case (Some els)
    show ?thesis
    proof (cases "first_error (conn_size_check (mpiRank a) ?index els) [0 ..< ?n]")
      case None
      then have "\<not> ?sb els" using sc by simp
      then show ?thesis
        using pre cm cm' None \<open>elements a = Some els\<close>
        by (simp add: setElementConnectivity_def Let_def oe)
    next
      case (Some cm2)
      then have sb: "?sb els" using sc [of els] by simp
      obtain c2 m2 where c2: "cm2 = (c2, m2)" by (cases cm2)
      have "\<exists>x \<in> set [0 ..< ?n]. conn_size_check (mpiRank a) ?index els x = Some (c2, m2)"
        by (rule first_error_Some_in [OF Some [unfolded c2]])
      then have "c2 = 1 \<and> m2 = (mpiRank a, ''Element %s does not match connectivity'')"
        using conn_size_check_code by blast
      then show ?thesis
        using pre \<open>elements a = Some els\<close> Some c2 sb
        by (simp add: setElementConnectivity_def Let_def oe)
    qed
  qed
qed

theorem setElementConnectivity_out_of_range_witness:
  "(\<exists>m. setElementConnectivity ex_conn_a0 [0, 5] [0, 2] =
           (Some (- 1), [m],
            ex_conn_a0\<lparr>elementNodeIndex := Some [0, 2], elementTacsNodes := Some [0, 5]\<rparr>) \<and>
         fst m = 0) \<and>
   (\<exists>m. setElementConnectivity (ex_conn_a0\<lparr>elements := Some [ex_dv_element 3 1 5]\<rparr>) [0, 5] [0, 2] =
           (Some (- 1), [m],
            ex_conn_a0\<lparr>elements := Some [ex_dv_element 3 1 5],
              elementNodeIndex := Some [0, 2], elementTacsNodes := Some [0, 5]\<rparr>) \<and>
         fst m = 0) \<and>
   setElementConnectivity (ex_conn_a0\<lparr>elements := Some [ex_dv_element 3 1 5]\<rparr>) [0, 1, 5] [0, 3] =
     (Some 1, [(0, ''Element %s does not match connectivity'')],
      ex_conn_a0\<lparr>elements := Some [ex_dv_element 3 1 5],
        elementNodeIndex := Some [0, 3], elementTacsNodes := Some [0, 1, 5]\<rparr>)"
proof -
  let ?b = "ex_conn_a0\<lparr>elements := Some [ex_dv_element 3 1 5]\<rparr>"
  have 1: "\<exists>m. setElementConnectivity ex_conn_a0 [0, 5] [0, 2] =
           (Some (- 1), [m],
            ex_conn_a0\<lparr>elementNodeIndex := Some [0, 2], elementTacsNodes := Some [0, 5]\<rparr>) \<and>
         fst m = 0"
    using setElementConnectivity_out_of_range [of ex_conn_a0 0 "[0, 2]" 1 "[0, 5]"]
    by (auto simp: ex_conn_a0_eq TACSAssembler_new_def owner_end_def ev)
  have 2: "\<exists>m. setElementConnectivity ?b [0, 5] [0, 2] =
           (Some (- 1), [m], ?b\<lparr>elementNodeIndex := Some [0, 2], elementTacsNodes := Some [0, 5]\<rparr>) \<and>
         fst m = 0"
    using setElementConnectivity_out_of_range [of ?b 0 "[0, 2]" 1 "[0, 5]"]
    by (auto simp: ex_conn_a0_eq TACSAssembler_new_def owner_end_def ex_dv_element_def ev)
  have 3: "setElementConnectivity ?b [0, 1, 5] [0, 3] =
     (Some 1, [(0, ''Element %s does not match connectivity'')],
      ?b\<lparr>elementNodeIndex := Some [0, 3], elementTacsNodes := Some [0, 1, 5]\<rparr>)"
    using setElementConnectivity_out_of_range [of ?b 0 "[0, 3]" 2 "[0, 1, 5]"]
    by (auto simp: ex_conn_a0_eq TACSAssembler_new_def owner_end_def ex_dv_element_def ev
        prod_eq_iff)
  show ?thesis using 1 2 3 by simp
qed






text \<open>
  What the amended statement leaves open: a second call that is rejected has already
  released the reference to the table stored by the first call (line 453).
\<close>

lemma setDependentNodes_releases_stored_table:
  "map_option ref_count (depNodes ex_dep_a1) = Some 1 \<and>
   fst (setDependentNodes ex_dep_a1 [0, 2] [0, - 1] [1 / 2, 1 / 2]) = 1 \<and>
   map_option ref_count (depNodes (snd (snd (setDependentNodes ex_dep_a1 [0, 2] [0, - 1] [1 / 2, 1 / 2]))))
     = Some 0"
  by (simp add: ex_dep_a1_def setDependentNodes_def TACSAssembler_new_def owner_end_def csr_pairs_def
      dep_parent_check_def incref_def decref_def Let_def ev)

lemma addBCs_fold:
  "n \<le> length nodes \<Longrightarrow>
   fold (\<lambda>i bm. if lo \<le> nodes ! i \<and> nodes ! i < hi
                   then bcMap_addBC bm (nodes ! i) nb vars vals else bm) [0 ..< n] bm0 =
   bm0 @ map (\<lambda>n. \<lparr> bc_node = n, bc_nbcs = nb, bc_vars = vars, bc_vals = vals \<rparr>)
           (filter (\<lambda>n. lo \<le> n \<and> n < hi) (take n nodes))"
proof (induction n)
  case 0
  then show ?case by simp
next
  case (Suc n)
  then show ?case by (simp add: take_Suc_conv_app_nth bcMap_addBC_def)
qed

text \<open>
  C9: \<^verbatim>\<open>addBCs\<close> adds one entry for every node of the list inside
  \<open>[ownerRange[rank], ownerRange[rank+1])\<close>, in list order, and nothing for any other node;
  it prints nothing and changes no other member; the number of constrained variables is
  \<^verbatim>\<open>varsPerNode\<close> when \<^verbatim>\<open>vars\<close> is null or \<^verbatim>\<open>nbcs\<close> is negative. (After
  \<^verbatim>\<open>initialize\<close> it records nothing at all.)
\<close>

theorem addBCs_owned_only:
  assumes "nat nnodes \<le> length nodes"
  shows "addBCs a nnodes nodes nbcs vars vals =
    (if meshInitializedFlag a
     then ([(mpiRank a, ''Cannot call addBC() after initialize()'')], a)
     else ([], a\<lparr>bcMap := bcMap a @
             map (\<lambda>n. \<lparr> bc_node = n,
                        bc_nbcs = (if vars = None \<or> nbcs < 0 then varsPerNode a else nbcs),
                        bc_vars = vars, bc_vals = vals \<rparr>)
               (filter (\<lambda>n. owner_lo a \<le> n \<and> n < owner_hi a) (take (nat nnodes) nodes))\<rparr>))"
  using assms by (simp add: addBCs_def Let_def addBCs_fold)

theorem addBCs_owned_only_witness:
  "addBCs (TACSAssembler_new 1 [3, 2] 6 0 0) 4 [0, 3, 7, 4] (- 1) (Some [0, 1]) None =
     ([], (TACSAssembler_new 1 [3, 2] 6 0 0)
            \<lparr>bcMap := [\<lparr> bc_node = 3, bc_nbcs = 6, bc_vars = Some [0, 1], bc_vals = None \<rparr>,
                       \<lparr> bc_node = 4, bc_nbcs = 6, bc_vars = Some [0, 1], bc_vals = None \<rparr>]\<rparr>)"
  using addBCs_owned_only [of 4 "[0, 3, 7, 4]" "TACSAssembler_new 1 [3, 2] 6 0 0" "- 1" "Some [0, 1]" None]
  by (simp add: TACSAssembler_new_def owner_lo_def owner_hi_def)

text \<open>
  C10: before \<^verbatim>\<open>initialize\<close>, \<^verbatim>\<open>createVec\<close> and \<^verbatim>\<open>createMat\<close> print one
  error tagged with the rank, return a null pointer and leave the assembler as it was.
\<close>

theorem create_before_initialize:
  "\<not> meshInitializedFlag a \<Longrightarrow>
   createVec a = (None, [(mpiRank a, ''Cannot call createVec() before initialize()'')], a) \<and>
   createMat a = (None, [(mpiRank a, ''Cannot call createMat() before initialize()'')], a)"
  by (simp add: createVec_def createMat_def)

theorem create_before_initialize_witness:
  "createVec ex_conn_a0 = (None, [(0, ''Cannot call createVec() before initialize()'')], ex_conn_a0) \<and>
   createMat ex_conn_a0 = (None, [(0, ''Cannot call createMat() before initialize()'')], ex_conn_a0)"
  using create_before_initialize [of ex_conn_a0]
  by (simp add: ex_conn_a0_eq TACSAssembler_new_def)

subsection \<open>External nodes\<close>

lemma remdups_adj_strict: "sorted xs \<Longrightarrow> sorted_wrt (<) (remdups_adj (xs :: int list))"
proof (induction xs rule: remdups_adj.induct)
  case 1
  then show ?case by simp
next
  case (2 x)
  then show ?case by simp
next
  case (3 x y xs)
  then show ?case by (cases "x = y") force+
qed

lemma uniqueSort_strict: "sorted_wrt (<) (uniqueSort xs)"
  by (simp add: uniqueSort_def remdups_adj_strict)

lemma set_uniqueSort: "set (uniqueSort xs) = set xs"
  by (simp add: uniqueSort_def)

lemma takeWhile_less_sorted:
  "sorted xs \<Longrightarrow> takeWhile (\<lambda>x. x < (c::int)) xs = filter (\<lambda>x. x < c) xs"
proof (induction xs)
  case Nil
  then show ?case by simp
next
  case (Cons x xs)
  show ?case
  proof (cases "x < c")
    case True
    with Cons show ?thesis by simp
  next
    case False
    with Cons.prems have "\<forall>y \<in> set xs. \<not> y < c" by auto
    then have "filter (\<lambda>x. x < c) xs = []" by (simp add: filter_empty_conv)
    with False show ?thesis by simp
  qed
qed

lemma ex_ext_a0_eq:
  "ex_ext_a0 = (TACSAssembler_new 1 [2, 2, 2] 1 2 1)
      \<lparr>elementNodeIndex := Some [0, 2, 4], elementTacsNodes := Some [1, 2, 3, - 1],
        depNodes := Some \<lparr> depNodePtr = [0, 2], depNodeToTacs = [0, 5],
                           depNodeWeights = [1 / 2, 1 / 2], ref_count = 1 \<rparr>\<rparr>"
  by (simp add: ex_ext_a0_def setElementConnectivity_def setDependentNodes_def TACSAssembler_new_def
      Let_def csr_pairs_def conn_range_check_def dep_parent_check_def owner_end_def incref_def ev)

lemma ex_ext_a0_compute:
  "computeExtNodes ex_ext_a0 =
     (0, [], ex_ext_a0\<lparr>tacsExtNodeNums := Some [0, 1, 5], numExtNodes := 3, numNodes := 5,
                       extNodeOffset := 2\<rparr>)"
  by (simp add: ex_ext_a0_eq computeExtNodes_def TACSAssembler_new_def Let_def
      conn_all_def conn_nodes_def conn_index_def dep_conn_all_def is_ext_node_def uniqueSort_def
      owner_lo_def owner_hi_def ev)

lemma computeExtNodes_ok:
  "fst (computeExtNodes a) = 0 \<longleftrightarrow> \<not> meshInitializedFlag a \<and> elementNodeIndex a \<noteq> None"
  by (simp add: computeExtNodes_def Let_def)

lemma computeExtNodes_result:
  "fst (computeExtNodes a) = 0 \<Longrightarrow>
   snd (snd (computeExtNodes a)) =
     a\<lparr> tacsExtNodeNums := Some (uniqueSort (ext_candidates a)),
        numExtNodes := int (length (uniqueSort (ext_candidates a))),
        numNodes := numOwnedNodes a + int (length (uniqueSort (ext_candidates a))),
        extNodeOffset := int (length (takeWhile (\<lambda>x. x < owner_lo a) (uniqueSort (ext_candidates a)))) \<rparr>"
  by (auto simp: computeExtNodes_def Let_def ext_candidates_def split: if_splits)

lemma set_ext_candidates:
  "set (ext_candidates a) =
     {g \<in> set (conn_all a) \<union> (case depNodes a of None \<Rightarrow> {} | Some d \<Rightarrow> set (dep_conn_all a d)).
        g \<ge> 0 \<and> (g < owner_lo a \<or> g \<ge> owner_hi a)}"
  by (auto simp: ext_candidates_def is_ext_node_def split: option.splits)

lemma strict_sorted_int: "sorted_wrt (<) (xs :: int list) \<Longrightarrow> sorted xs \<and> distinct xs"
  using strict_sorted_iff by blast

text \<open>
  C2: after \<^verbatim>\<open>computeExtNodes\<close> has returned 0, \<^verbatim>\<open>tacsExtNodeNums\<close> is strictly
  increasing (so free of duplicates) and its entries are exactly the non-negative node
  numbers outside \<open>[ownerRange[rank], ownerRange[rank+1])\<close> that occur in the element
  connectivity or, when a dependent-node table is stored, in its parent array;
  \<^verbatim>\<open>numExtNodes\<close> is the size of that set, \<^verbatim>\<open>extNodeOffset\<close> the number of its
  members below \<^verbatim>\<open>ownerRange[rank]\<close>, and \<^verbatim>\<open>numNodes = numOwnedNodes + numExtNodes\<close>.
\<close>

theorem computeExtNodes_external_set:
  assumes "fst (computeExtNodes a) = 0"
  shows "\<exists>ext. tacsExtNodeNums (snd (snd (computeExtNodes a))) = Some ext \<and>
     sorted_wrt (<) ext \<and> distinct ext \<and>
     set ext = {g \<in> set (conn_all a) \<union>
                      (case depNodes a of None \<Rightarrow> {} | Some d \<Rightarrow> set (dep_conn_all a d)).
                  g \<ge> 0 \<and> (g < owner_lo a \<or> g \<ge> owner_hi a)} \<and>
     numExtNodes (snd (snd (computeExtNodes a))) = int (card (set ext)) \<and>
     extNodeOffset (snd (snd (computeExtNodes a))) = int (card {g \<in> set ext. g < owner_lo a}) \<and>
     numNodes (snd (snd (computeExtNodes a))) =
       numOwnedNodes (snd (snd (computeExtNodes a))) + numExtNodes (snd (snd (computeExtNodes a)))"
proof -
  let ?ext = "uniqueSort (ext_candidates a)"
  have s: "sorted_wrt (<) ?ext" by (rule uniqueSort_strict)
  then have sd: "sorted ?ext" "distinct ?ext" using strict_sorted_int by blast+
  have off: "length (takeWhile (\<lambda>x. x < owner_lo a) ?ext) = card {g \<in> set ?ext. g < owner_lo a}"
  proof -
    have "length (takeWhile (\<lambda>x. x < owner_lo a) ?ext) = length (filter (\<lambda>x. x < owner_lo a) ?ext)"
      using sd(1) by (simp add: takeWhile_less_sorted)
    also have "\<dots> = card ({x. x < owner_lo a} \<inter> set ?ext)"
      using sd(2) by (rule distinct_length_filter)
    also have "{x. x < owner_lo a} \<inter> set ?ext = {g \<in> set ?ext. g < owner_lo a}" by auto
    finally show ?thesis .
  qed
  have "tacsExtNodeNums (snd (snd (computeExtNodes a))) = Some ?ext"
    "numExtNodes (snd (snd (computeExtNodes a))) = int (card (set ?ext))"
    "extNodeOffset (snd (snd (computeExtNodes a))) = int (card {g \<in> set ?ext. g < owner_lo a})"
    "numNodes (snd (snd (computeExtNodes a))) =
       numOwnedNodes (snd (snd (computeExtNodes a))) + numExtNodes (snd (snd (computeExtNodes a)))"
    using computeExtNodes_result [OF assms] sd(2) off by (simp_all add: distinct_card)
  moreover have "set ?ext = {g \<in> set (conn_all a) \<union>
                      (case depNodes a of None \<Rightarrow> {} | Some d \<Rightarrow> set (dep_conn_all a d)).
                  g \<ge> 0 \<and> (g < owner_lo a \<or> g \<ge> owner_hi a)}"
    by (simp only: set_uniqueSort set_ext_candidates)
  ultimately show ?thesis using s sd(2) by blast
qed

theorem computeExtNodes_external_set_witness:
  "fst (computeExtNodes ex_ext_a0) = 0 \<and>
   tacsExtNodeNums (snd (snd (computeExtNodes ex_ext_a0))) = Some [0, 1, 5] \<and>
   set [0, 1, 5] = {g \<in> set (conn_all ex_ext_a0) \<union>
                      (case depNodes ex_ext_a0 of None \<Rightarrow> {} | Some d \<Rightarrow> set (dep_conn_all ex_ext_a0 d)).
                  g \<ge> 0 \<and> (g < owner_lo ex_ext_a0 \<or> g \<ge> owner_hi ex_ext_a0)} \<and>
   numExtNodes (snd (snd (computeExtNodes ex_ext_a0))) = 3 \<and>
   extNodeOffset (snd (snd (computeExtNodes ex_ext_a0))) = 2 \<and>
   numNodes (snd (snd (computeExtNodes ex_ext_a0))) = 5"
  using computeExtNodes_external_set [of ex_ext_a0]
  by (simp add: ex_ext_a0_compute)

subsection \<open>Local and global node numbers\<close>

lemma bsearch_loop_finds:
  "sorted_wrt (<) xs \<Longrightarrow> u \<le> length xs \<Longrightarrow> l \<le> i \<Longrightarrow> i < u \<Longrightarrow>
   bsearch_loop (xs ! i) xs l u = Some i"
proof (induction "xs ! i" xs l u rule: bsearch_loop.induct)
  case (1 xs l u)
  let ?idx = "(l + u) div 2"
  have lt: "l < u" using 1 by simp
  have idx: "?idx < length xs" "l \<le> ?idx" "?idx < u" using 1 by auto
  have mono: "\<And>p q. p < q \<Longrightarrow> q < length xs \<Longrightarrow> xs ! p < xs ! q"
    using "1.prems"(1) by (simp add: sorted_wrt_iff_nth_less)
  consider (less) "i < ?idx" | (eq) "i = ?idx" | (gr) "?idx < i" by linarith
  then show ?case
  proof cases
    case less
    then have k: "xs ! i < xs ! ?idx" using mono idx by simp
    have "bsearch_loop (xs ! i) xs l ?idx = Some i"
      using "1.hyps"(1) [OF lt refl k] "1.prems" less idx by simp
    then show ?thesis using lt k by (subst bsearch_loop.simps) (simp add: Let_def)
  next
    case eq
    then show ?thesis using lt by (subst bsearch_loop.simps) (simp add: Let_def)
  next
    case gr
    have iu: "i < length xs" using 1 by simp
    then have k: "xs ! ?idx < xs ! i" using mono gr by simp
    have "bsearch_loop (xs ! i) xs (Suc ?idx) u = Some i"
      using "1.hyps"(2) [OF lt refl] k "1.prems" gr by simp
    then show ?thesis using lt k by (subst bsearch_loop.simps) (simp add: Let_def)
  qed
qed

lemma bsearch_finds:
  "sorted_wrt (<) xs \<Longrightarrow> i < length xs \<Longrightarrow> bsearch (xs ! i) xs (length xs) = Some i"
  by (simp add: bsearch_def bsearch_loop_finds)

lemma sorted_below_prefix:
  assumes s: "sorted_wrt (<) (xs :: int list)" and i: "i < length xs"
  shows "i < length (filter (\<lambda>g. g < c) xs) \<longleftrightarrow> xs ! i < c"
proof -
  let ?P = "\<lambda>g. g < c"
  have sd: "sorted xs" using s strict_sorted_int by blast
  have tw: "filter ?P xs = takeWhile ?P xs" using sd by (simp add: takeWhile_less_sorted)
  show ?thesis
  proof
    assume "i < length (filter ?P xs)"
    then have "i < length (takeWhile ?P xs)" by (simp add: tw)
    then have "takeWhile ?P xs ! i \<in> set (takeWhile ?P xs)" and "takeWhile ?P xs ! i = xs ! i"
      by (rule nth_mem, rule takeWhile_nth)
    then show "xs ! i < c" using set_takeWhileD by fastforce
  next
    assume b: "xs ! i < c"
    show "i < length (filter ?P xs)"
    proof (rule ccontr)
      assume "\<not> i < length (filter ?P xs)"
      then have k: "length (takeWhile ?P xs) \<le> i" by (simp add: tw)
      then have kl: "length (takeWhile ?P xs) < length xs" using i by simp
      then have "\<not> xs ! length (takeWhile ?P xs) < c" by (rule nth_length_takeWhile)
      moreover have "xs ! length (takeWhile ?P xs) \<le> xs ! i"
        using sd k i by (simp add: sorted_iff_nth_mono)
      ultimately show False using b by simp
    qed
  qed
qed

lemma ext_layout_D:
  assumes "ext_layout a"
  obtains ext where "ext_nodes a = Some ext" "sorted_wrt (<) ext"
    "\<And>g. g \<in> set ext \<Longrightarrow> is_ext_node a g"
    "numExtNodes a = int (length ext)"
    "extNodeOffset a = int (length (filter (\<lambda>g. g < owner_lo a) ext))"
    "numNodes a = numOwnedNodes a + numExtNodes a"
    "owner_hi a - owner_lo a = numOwnedNodes a" "owner_lo a \<le> owner_hi a"
  using assms by (auto simp: ext_layout_def list_all_iff split: option.splits)

lemma getLocal_of_ext:
  assumes "ext_layout a" and e: "ext_nodes a = Some ext" and i: "i < length ext"
  shows "getLocalNodeNum a (ext ! i) =
           (if ext ! i < owner_lo a then int i else numOwnedNodes a + int i)"
proof -
  from assms(1) e have s: "sorted_wrt (<) ext" and x: "is_ext_node a (ext ! i)"
    and n: "numExtNodes a = int (length ext)"
    using i by (auto elim!: ext_layout_D)
  have "bsearch (ext ! i) ext (nat (numExtNodes a)) = Some i"
    using s i n by (simp add: bsearch_finds)
  then show ?thesis
    using x e by (auto simp: getLocalNodeNum_def is_ext_node_def)
qed

text \<open>
  C3: with the external list computed (the layout \<^const>\<open>ext_layout\<close>, which
  \<^verbatim>\<open>computeExtNodes\<close> establishes: lemma \<open>computeExtNodes_ext_layout\<close> below),
  \<^verbatim>\<open>getLocalNodeNum (getGlobalNodeNum l) = l\<close> for every local index \<open>l\<close> in
  \<open>[0, numNodes)\<close>, and \<^verbatim>\<open>getGlobalNodeNum (getLocalNodeNum g) = g\<close> for every global
  node \<open>g\<close> that is owned or in the external list.
\<close>

theorem local_global_inverse:
  assumes L: "ext_layout a"
  shows "(\<forall>l. 0 \<le> l \<and> l < numNodes a \<longrightarrow> getLocalNodeNum a (getGlobalNodeNum a l) = l) \<and>
         (\<forall>g. (owner_lo a \<le> g \<and> g < owner_hi a) \<or> g \<in> set (the (ext_nodes a)) \<longrightarrow>
              getGlobalNodeNum a (getLocalNodeNum a g) = g)"
proof -
  from L obtain ext where e: "ext_nodes a = Some ext" and s: "sorted_wrt (<) ext"
    and x: "\<And>g. g \<in> set ext \<Longrightarrow> is_ext_node a g"
    and n: "numExtNodes a = int (length ext)"
    and off: "extNodeOffset a = int (length (filter (\<lambda>g. g < owner_lo a) ext))"
    and nn: "numNodes a = numOwnedNodes a + numExtNodes a"
    and own: "owner_hi a - owner_lo a = numOwnedNodes a" "owner_lo a \<le> owner_hi a"
    by (auto simp: ext_layout_def list_all_iff split: option.splits)
  have below: "\<And>i. i < length ext \<Longrightarrow> int i < extNodeOffset a \<longleftrightarrow> ext ! i < owner_lo a"
    using sorted_below_prefix [OF s] off by simp
  have offle: "extNodeOffset a \<le> int (length ext)" "0 \<le> extNodeOffset a"
    using off by simp_all
  have 1: "getLocalNodeNum a (getGlobalNodeNum a l) = l" if l: "0 \<le> l" "l < numNodes a" for l
  proof -
    consider (lo) "l < extNodeOffset a"
      | (own) "extNodeOffset a \<le> l" "l < extNodeOffset a + numOwnedNodes a"
      | (hi) "extNodeOffset a + numOwnedNodes a \<le> l" by linarith
    then show ?thesis
    proof cases
      case lo
      then have i: "nat l < length ext" using offle l by simp
      have g: "getGlobalNodeNum a l = ext ! nat l"
        using lo e by (simp add: getGlobalNodeNum_def)
      have "ext ! nat l < owner_lo a" using below [OF i] lo l by simp
      then show ?thesis using getLocal_of_ext [OF L e i] g l by simp
    next
      case own
      then show ?thesis
        using \<open>owner_hi a - owner_lo a = numOwnedNodes a\<close>
        by (simp add: getGlobalNodeNum_def getLocalNodeNum_def)
    next
      case hi
      then have nl: "\<not> l < extNodeOffset a" using own(2) \<open>owner_hi a - owner_lo a = numOwnedNodes a\<close> by simp
      let ?i = "nat (l - numOwnedNodes a)"
      have i: "?i < length ext" using l nn n hi offle by simp
      have ige: "\<not> int ?i < extNodeOffset a" using hi offle by simp
      have g: "getGlobalNodeNum a l = ext ! ?i"
        using hi nl l e by (simp add: getGlobalNodeNum_def)
      have "\<not> ext ! ?i < owner_lo a" using below [OF i] ige by simp
      then show ?thesis using getLocal_of_ext [OF L e i] g hi offle by simp
    qed
  qed
  have 2: "getGlobalNodeNum a (getLocalNodeNum a g) = g"
    if g: "(owner_lo a \<le> g \<and> g < owner_hi a) \<or> g \<in> set ext" for g
  proof (cases "owner_lo a \<le> g \<and> g < owner_hi a")
    case True
    then show ?thesis
      using own offle by (simp add: getGlobalNodeNum_def getLocalNodeNum_def)
  next
    case False
    with g have "g \<in> set ext" by simp
    then obtain i where i: "i < length ext" "ext ! i = g" by (auto simp: in_set_conv_nth)
    show ?thesis
    proof (cases "g < owner_lo a")
      case True
      then have "getLocalNodeNum a g = int i" using getLocal_of_ext [OF L e i(1)] i(2) by simp
      moreover have "int i < extNodeOffset a" using below [OF i(1)] True i(2) by simp
      ultimately show ?thesis using e i by (simp add: getGlobalNodeNum_def)
    next
      case F2: False
      then have loc: "getLocalNodeNum a g = numOwnedNodes a + int i"
        using getLocal_of_ext [OF L e i(1)] i(2) by simp
      have ige: "\<not> int i < extNodeOffset a" using below [OF i(1)] F2 i(2) by simp
      have "0 \<le> numOwnedNodes a" using own by simp
      then show ?thesis
        using loc ige e i n nn by (simp add: getGlobalNodeNum_def)
    qed
  qed
  show ?thesis using 1 2 e by simp
qed

theorem local_global_inverse_witness:
  "ext_layout ex_ext_a1 \<and> numNodes ex_ext_a1 = 5 \<and>
   map (getGlobalNodeNum ex_ext_a1) [0, 1, 2, 3, 4] = [0, 1, 2, 3, 5] \<and>
   map (getLocalNodeNum ex_ext_a1) [0, 1, 2, 3, 5] = [0, 1, 2, 3, 4] \<and>
   getLocalNodeNum ex_ext_a1 (getGlobalNodeNum ex_ext_a1 4) = 4 \<and>
   getGlobalNodeNum ex_ext_a1 (getLocalNodeNum ex_ext_a1 5) = 5"
proof -
  have e: "ex_ext_a1 = ex_ext_a0\<lparr>tacsExtNodeNums := Some [0, 1, 5], numExtNodes := 3, numNodes := 5,
                       extNodeOffset := 2\<rparr>"
    by (simp add: ex_ext_a1_def ex_ext_a0_compute)
  have L: "ext_layout ex_ext_a1"
    by (simp add: e ex_ext_a0_eq ext_layout_def ext_nodes_def TACSAssembler_new_def owner_lo_def
        owner_hi_def is_ext_node_def ev)
  have en: "ext_nodes ex_ext_a1 = Some [0, 1, 5]" by (simp add: e ext_nodes_def)
  have g: "map (getGlobalNodeNum ex_ext_a1) [0, 1, 2, 3, 4] = [0, 1, 2, 3, 5]"
    by (simp add: getGlobalNodeNum_def en, simp add: e ex_ext_a0_eq TACSAssembler_new_def owner_lo_def ev)
  have n: "numNodes ex_ext_a1 = 5" by (simp add: e)
  note r = local_global_inverse [OF L, THEN conjunct1, rule_format]
  have l: "map (getLocalNodeNum ex_ext_a1) [0, 1, 2, 3, 5] = [0, 1, 2, 3, 4]"
    using r [of 0] r [of 1] r [of 2] r [of 3] r [of 4] g by (simp add: n)
  have "getGlobalNodeNum ex_ext_a1 (getLocalNodeNum ex_ext_a1 5) = 5"
    using local_global_inverse [OF L, THEN conjunct2, rule_format, of 5] by (simp add: en)
  then show ?thesis
    using r [of 4] L g l n by simp
qed

text \<open>The layout holds after \<^verbatim>\<open>computeExtNodes\<close>, and the constructor's owner range has the size it needs.\<close>

lemma computeExtNodes_ext_layout:
  assumes ok: "fst (computeExtNodes a) = 0"
    and own: "owner_hi a - owner_lo a = numOwnedNodes a" "owner_lo a \<le> owner_hi a"
  shows "ext_layout (snd (snd (computeExtNodes a)))"
proof -
  let ?ext = "uniqueSort (ext_candidates a)"
  have s: "sorted_wrt (<) ?ext" by (rule uniqueSort_strict)
  then have sd: "sorted ?ext" using strict_sorted_int by blast
  have x: "list_all (is_ext_node a) ?ext"
    by (auto simp: list_all_iff set_uniqueSort ext_candidates_def split: option.splits)
  show ?thesis
    unfolding computeExtNodes_result [OF ok]
    using s x own sd
    by (simp add: ext_layout_def ext_nodes_def owner_lo_def owner_hi_def is_ext_node_def
        takeWhile_less_sorted list_all_iff)
qed

lemma TACSAssembler_new_owner_range:
  assumes "rank < length counts" "\<forall>c \<in> set counts. 0 \<le> c"
  shows "owner_hi (TACSAssembler_new rank counts vpn ne nd) - owner_lo (TACSAssembler_new rank counts vpn ne nd)
           = numOwnedNodes (TACSAssembler_new rank counts vpn ne nd) \<and>
         owner_lo (TACSAssembler_new rank counts vpn ne nd) \<le> owner_hi (TACSAssembler_new rank counts vpn ne nd)"
proof -
  have d: "rank < length counts \<Longrightarrow>
        prefix_sums s counts ! Suc rank - prefix_sums s counts ! rank = counts ! rank" for s
  proof (induction counts arbitrary: s rank)
    case Nil
    then show ?case by simp
  next
    case (Cons c cs)
    then show ?case by (cases rank) (auto, (cases cs; simp))
  qed
  have "0 \<le> counts ! rank" using assms by simp
  then show ?thesis
    using assms(1) d [of 0] by (simp add: TACSAssembler_new_def owner_lo_def owner_hi_def)
qed

subsection \<open>Adjacency\<close>

lemma prefix_sums_nth:
  "i \<le> length cs \<Longrightarrow> prefix_sums s cs ! i = s + sum_list (take i cs)"
proof (induction cs arbitrary: s i)
  case Nil
  then show ?case by simp
next
  case (Cons c cs)
  then show ?case by (cases i) simp_all
qed

lemma nth_slice_append:
  "map (\<lambda>j. (xs @ ys @ zs) ! j) [length xs ..< length xs + length ys] = ys"
  by (rule nth_equalityI) (simp_all add: nth_append)

lemma csr_row_of_rows:
  assumes "i < length rows"
  shows "csr_row (fst (csr_of_rows rows)) (snd (csr_of_rows rows)) i = rows ! i"
proof -
  let ?pre = "concat (take i rows)"
  have "sum_list (map (\<lambda>r. int (length r)) xs) = int (length (concat xs))" for xs :: "int list list"
    by (induction xs) simp_all
  then have len: "sum_list (take k (map (\<lambda>r. int (length r)) rows)) = int (length (concat (take k rows)))" for k
    by (simp add: take_map)
  have a: "prefix_sums 0 (map (\<lambda>r. int (length r)) rows) ! i = int (length ?pre)"
    using assms by (simp add: prefix_sums_nth len)
  have "take (Suc i) rows = take i rows @ [rows ! i]"
    using assms by (simp add: take_Suc_conv_app_nth)
  then have b: "prefix_sums 0 (map (\<lambda>r. int (length r)) rows) ! Suc i =
                 int (length ?pre + length (rows ! i))"
    using assms by (simp add: prefix_sums_nth len)
  have "rows = take i rows @ rows ! i # drop (Suc i) rows"
    using assms by (simp add: id_take_nth_drop)
  then have "concat rows = ?pre @ rows ! i @ concat (drop (Suc i) rows)"
    by (metis concat.simps(2) concat_append)
  then show ?thesis
    using nth_slice_append [of ?pre "rows ! i" "concat (drop (Suc i) rows)"]
    by (simp add: csr_row_def csr_of_rows_def a b del: of_nat_add)
qed

lemma SortAndUniquifyCSR_row:
  assumes "i < nat n"
  shows "csr_row (fst (SortAndUniquifyCSR n rowp cols nodiag)) (snd (SortAndUniquifyCSR n rowp cols nodiag)) i =
           filter (\<lambda>c. \<not> (nodiag \<and> c = int i)) (uniqueSort (csr_row rowp cols i))"
  using assms by (simp add: SortAndUniquifyCSR_def csr_row_of_rows)

lemma those_map_Some:
  "(\<And>x. x \<in> set xs \<Longrightarrow> f x = Some (g x)) \<Longrightarrow> those (map f xs) = Some (map g xs)"
  by (induction xs) simp_all

lemma conn_resolves_D:
  assumes "conn_resolves a" "e < nat (numElements a)"
  shows "\<And>node. node \<in> set (elem_conn a e) \<Longrightarrow> node \<ge> 0 \<or> depNodes a \<noteq> None"
    and "\<And>g. g \<in> set (elem_global_nodes a e) \<Longrightarrow>
           0 \<le> getLocalNodeNum a g \<and> getLocalNodeNum a g < numNodes a"
  using assms by (auto simp: conn_resolves_def list_all_iff)

lemma elem_local_nodes_resolved:
  assumes "conn_resolves a" "e < nat (numElements a)"
  shows "elem_local_nodes a e = Some (map (getLocalNodeNum a) (elem_global_nodes a e))"
proof -
  let ?glob = "\<lambda>node. if node \<ge> 0 then [node]
                       else case depNodes a of None \<Rightarrow> [] | Some d \<Rightarrow> dep_parents d node"
  have "expand_node a node = Some (map (getLocalNodeNum a) (?glob node))"
    if "node \<in> set (elem_conn a e)" for node
    using conn_resolves_D(1) [OF assms that] by (auto simp: expand_node_def split: option.splits)
  then have "those (map (expand_node a) (elem_conn a e)) =
             Some (map (\<lambda>node. map (getLocalNodeNum a) (?glob node)) (elem_conn a e))"
    by (rule those_map_Some)
  then show ?thesis
    by (simp add: elem_local_nodes_def elem_global_nodes_def map_concat comp_def)
qed

lemma elem_cols_resolved:
  assumes "conn_resolves a" "e < nat (numElements a)"
  shows "elem_cols a e = map (getLocalNodeNum a) (elem_global_nodes a e)"
proof (cases "depNodes a")
  case None
  then have nn: "\<forall>node \<in> set (elem_conn a e). node \<ge> 0"
    using conn_resolves_D(1) [OF assms] by auto
  have "\<forall>node \<in> set xs. node \<ge> 0 \<Longrightarrow>
        concat (map (\<lambda>node. if node \<ge> 0 then [node] else f node) xs) = xs"
    for xs :: "int list" and f
    by (induction xs) simp_all
  from this [OF nn] have "elem_global_nodes a e = elem_conn a e"
    unfolding elem_global_nodes_def .
  then show ?thesis
    using None by (simp add: elem_cols_def)
next
  case (Some d)
  have g: "elem_global_nodes a e =
             concat (map (\<lambda>node. if node \<ge> 0 then [node] else dep_parents d node) (elem_conn a e))"
    using Some by (simp add: elem_global_nodes_def cong: if_cong)
  show ?thesis
    unfolding g using Some
    by (simp add: elem_cols_def map_concat comp_def if_distrib [of "map (getLocalNodeNum a)"]
        cong: if_cong)
qed

text \<open>The rows of the node to element structure, under \<^const>\<open>conn_resolves\<close>.\<close>

lemma computeNodeToElementCSR_rows:
  assumes wf: "conn_resolves a"
  shows "\<exists>ptr n2e. computeNodeToElementCSR a = Some (ptr, n2e) \<and>
           (\<forall>i < nat (numNodes a).
              set (csr_row ptr n2e i) =
                int ` {e. e < nat (numElements a) \<and>
                         int i \<in> getLocalNodeNum a ` set (elem_global_nodes a e)})"
proof -
  let ?nE = "nat (numElements a)"
  let ?locs = "\<lambda>e. map (getLocalNodeNum a) (elem_global_nodes a e)"
  let ?L = "map ?locs [0 ..< ?nE]"
  let ?rows = "map (\<lambda>n. concat (map (\<lambda>i. map (\<lambda>l. int i) (filter (\<lambda>l. l = int n) (?L ! i)))
                                    [0 ..< ?nE])) [0 ..< nat (numNodes a)]"
  let ?R = "SortAndUniquifyCSR (numNodes a) (fst (csr_of_rows ?rows)) (snd (csr_of_rows ?rows)) False"
  have th: "those (map (elem_local_nodes a) [0 ..< ?nE]) = Some ?L"
    by (rule those_map_Some) (simp add: elem_local_nodes_resolved [OF wf])
  have rng: "\<not> (\<exists>l \<in> set (concat ?L). l < 0 \<or> l \<ge> numNodes a)"
    using conn_resolves_D(2) [OF wf] by fastforce
  have res: "computeNodeToElementCSR a = Some ?R"
    using th rng by (simp add: computeNodeToElementCSR_def Let_def case_prod_beta)
  have "set (csr_row (fst ?R) (snd ?R) i) =
          int ` {e. e < ?nE \<and> int i \<in> getLocalNodeNum a ` set (elem_global_nodes a e)}"
    if i: "i < nat (numNodes a)" for i
  proof -
    have "csr_row (fst ?R) (snd ?R) i = uniqueSort (?rows ! i)"
      using i by (simp add: SortAndUniquifyCSR_row csr_row_of_rows)
    moreover have "set (?rows ! i) =
        int ` {e. e < ?nE \<and> int i \<in> getLocalNodeNum a ` set (elem_global_nodes a e)}"
      using i by (auto simp: image_iff)
    ultimately show ?thesis by (simp add: set_uniqueSort)
  qed
  then have "computeNodeToElementCSR a = Some (fst ?R, snd ?R) \<and>
           (\<forall>i < nat (numNodes a).
              set (csr_row (fst ?R) (snd ?R) i) =
                int ` {e. e < ?nE \<and> int i \<in> getLocalNodeNum a ` set (elem_global_nodes a e)})"
    using res by simp
  then show ?thesis by (intro exI)
qed

text \<open>
  C4: where every node of the connectivity resolves to a local number
  (\<^const>\<open>conn_resolves\<close>), \<^verbatim>\<open>computeLocalNodeToNodeCSR\<close> returns a CSR structure in
  which every row is strictly increasing (sorted, without duplicates), and the row of local
  node \<open>i\<close> contains \<open>j\<close> exactly when some element, its dependent nodes replaced by their
  parents, has global nodes that \<^verbatim>\<open>getLocalNodeNum\<close> maps to \<open>i\<close> and to \<open>j\<close>, except
  that with \<^verbatim>\<open>nodiag\<close> set \<open>i\<close> itself is not in row \<open>i\<close>.
\<close>

theorem computeLocalNodeToNodeCSR_adjacency:
  assumes wf: "conn_resolves a"
  shows "\<exists>rowp cols. computeLocalNodeToNodeCSR a nodiag = Some (rowp, cols) \<and>
           (\<forall>i < nat (numNodes a).
              sorted_wrt (<) (csr_row rowp cols i) \<and>
              (\<forall>j. j \<in> set (csr_row rowp cols i) \<longleftrightarrow>
                 (\<exists>e < nat (numElements a).
                    int i \<in> getLocalNodeNum a ` set (elem_global_nodes a e) \<and>
                    j \<in> getLocalNodeNum a ` set (elem_global_nodes a e)) \<and>
                 \<not> (nodiag \<and> j = int i)))"
proof -
  let ?nE = "nat (numElements a)"
  let ?loc = "\<lambda>e. getLocalNodeNum a ` set (elem_global_nodes a e)"
  from computeNodeToElementCSR_rows [OF wf] obtain ptr n2e
    where ne: "computeNodeToElementCSR a = Some (ptr, n2e)"
      and rows: "\<And>i. i < nat (numNodes a) \<Longrightarrow>
                   set (csr_row ptr n2e i) = int ` {e. e < ?nE \<and> int i \<in> ?loc e}"
    by blast
  let ?rows = "map (\<lambda>i. concat (map (\<lambda>elem. elem_cols a (nat elem)) (csr_row ptr n2e i)))
                 [0 ..< nat (numNodes a)]"
  let ?R = "SortAndUniquifyCSR (numNodes a) (fst (csr_of_rows ?rows)) (snd (csr_of_rows ?rows)) nodiag"
  have res: "computeLocalNodeToNodeCSR a nodiag = Some ?R"
    using ne by (simp add: computeLocalNodeToNodeCSR_def Let_def case_prod_beta)
  have "sorted_wrt (<) (csr_row (fst ?R) (snd ?R) i) \<and>
        (\<forall>j. j \<in> set (csr_row (fst ?R) (snd ?R) i) \<longleftrightarrow>
           (\<exists>e < ?nE. int i \<in> ?loc e \<and> j \<in> ?loc e) \<and> \<not> (nodiag \<and> j = int i))"
    if i: "i < nat (numNodes a)" for i
  proof -
    have r: "csr_row (fst ?R) (snd ?R) i =
               filter (\<lambda>c. \<not> (nodiag \<and> c = int i)) (uniqueSort (?rows ! i))"
      using i by (simp add: SortAndUniquifyCSR_row csr_row_of_rows)
    have cols: "set (elem_cols a (nat elem)) = ?loc (nat elem)"
      if "elem \<in> set (csr_row ptr n2e i)" for elem
      using that rows [OF i] by (auto simp: elem_cols_resolved [OF wf])
    have "set (?rows ! i) = (\<Union>elem \<in> set (csr_row ptr n2e i). ?loc (nat elem))"
      using i cols by simp
    also have "\<dots> = {j. \<exists>e < ?nE. int i \<in> ?loc e \<and> j \<in> ?loc e}"
      unfolding rows [OF i] by auto
    finally have s: "set (?rows ! i) = {j. \<exists>e < ?nE. int i \<in> ?loc e \<and> j \<in> ?loc e}" .
    have "sorted_wrt (<) (csr_row (fst ?R) (snd ?R) i)"
      unfolding r by (rule sorted_wrt_filter) (rule uniqueSort_strict)
    moreover have "j \<in> set (csr_row (fst ?R) (snd ?R) i) \<longleftrightarrow>
           (\<exists>e < ?nE. int i \<in> ?loc e \<and> j \<in> ?loc e) \<and> \<not> (nodiag \<and> j = int i)" for j
      unfolding r using s by (auto simp: set_uniqueSort)
    ultimately show ?thesis by blast
  qed
  then have "computeLocalNodeToNodeCSR a nodiag = Some (fst ?R, snd ?R) \<and>
           (\<forall>i < nat (numNodes a).
              sorted_wrt (<) (csr_row (fst ?R) (snd ?R) i) \<and>
              (\<forall>j. j \<in> set (csr_row (fst ?R) (snd ?R) i) \<longleftrightarrow>
                 (\<exists>e < ?nE. int i \<in> ?loc e \<and> j \<in> ?loc e) \<and> \<not> (nodiag \<and> j = int i)))"
    using res by simp
  then show ?thesis by (intro exI)
qed

theorem computeLocalNodeToNodeCSR_adjacency_witness:
  "conn_resolves ex_ext_a1 \<and>
   computeLocalNodeToNodeCSR ex_ext_a1 True = Some ([0, 2, 3, 4, 6, 8], [3, 4, 2, 1, 0, 4, 0, 3]) \<and>
   csr_row [0, 2, 3, 4, 6, 8] [3, 4, 2, 1, 0, 4, 0, 3] 3 = [0, 4] \<and>
   sorted_wrt (<) (csr_row [0, 2, 3, 4, 6, 8] [3, 4, 2, 1, 0, 4, 0, 3] 3) \<and>
   (\<exists>e < nat (numElements ex_ext_a1).
       3 \<in> getLocalNodeNum ex_ext_a1 ` set (elem_global_nodes ex_ext_a1 e) \<and>
       4 \<in> getLocalNodeNum ex_ext_a1 ` set (elem_global_nodes ex_ext_a1 e))"
proof -
  have c: "conn_resolves ex_ext_a1" by code_simp
  have r: "computeLocalNodeToNodeCSR ex_ext_a1 True = Some ([0, 2, 3, 4, 6, 8], [3, 4, 2, 1, 0, 4, 0, 3])"
    by code_simp
  have n: "(3::nat) < nat (numNodes ex_ext_a1)" by code_simp
  have v: "csr_row [0, 2, 3, 4, 6, 8] [3, 4, 2, 1, 0, 4, 0, 3] 3 = [0, 4]" by code_simp
  from computeLocalNodeToNodeCSR_adjacency [OF c, of True] r n
  have "sorted_wrt (<) (csr_row [0, 2, 3, 4, 6, 8] [3, 4, 2, 1, 0, 4, 0, 3] 3) \<and>
        (\<forall>j. j \<in> set (csr_row [0, 2, 3, 4, 6, 8] [3, 4, 2, 1, 0, 4, 0, 3] 3) \<longleftrightarrow>
           (\<exists>e < nat (numElements ex_ext_a1).
              int 3 \<in> getLocalNodeNum ex_ext_a1 ` set (elem_global_nodes ex_ext_a1 e) \<and>
              j \<in> getLocalNodeNum ex_ext_a1 ` set (elem_global_nodes ex_ext_a1 e)) \<and>
           \<not> (True \<and> j = int 3))"
    by auto
  then have "sorted_wrt (<) (csr_row [0, 2, 3, 4, 6, 8] [3, 4, 2, 1, 0, 4, 0, 3] 3)"
    and "4 \<in> set (csr_row [0, 2, 3, 4, 6, 8] [3, 4, 2, 1, 0, 4, 0, 3] 3) \<longleftrightarrow>
           (\<exists>e < nat (numElements ex_ext_a1).
              3 \<in> getLocalNodeNum ex_ext_a1 ` set (elem_global_nodes ex_ext_a1 e) \<and>
              4 \<in> getLocalNodeNum ex_ext_a1 ` set (elem_global_nodes ex_ext_a1 e))"
    by simp_all
  then show ?thesis using c r v by simp
qed

subsection \<open>Design-variable bounds\<close>

text \<open>
  The range a process gets from \<^verbatim>\<open>getDesignVarRange\<close> is computed from its own
  elements alone, while \<^verbatim>\<open>getDesignVars\<close> reduces over the processes.
\<close>

lemma getDesignVars_max:
  "k < nat numDVs \<Longrightarrow> procs \<noteq> [] \<Longrightarrow>
   getDesignVars procs numDVs ! k = Max ((\<lambda>a. getDesignVars_local a numDVs ! k) ` set procs)"
  by (simp add: getDesignVars_def MPI_Allreduce_MAX_def image_image)

text \<open>
  C8 fails on the code: on two processes whose elements report the ranges \<open>[1, 5]\<close> and
  \<open>[2, 4]\<close> for design variable 0, rank 0 gets \<open>[1, 5]\<close> and rank 1 gets \<open>[2, 4]\<close>, not
  the maximum lower bound 2 and the minimum upper bound 4 on both, although the sibling
  \<^verbatim>\<open>getDesignVars\<close> returns the maximum 4 of the values 3 and 4 on both.
\<close>

theorem getDesignVarRange_not_reduced:
  "getDesignVarRange ex_dv_p0 [0] [0] 1 = ([1], [5]) \<and>
   getDesignVarRange ex_dv_p1 [0] [0] 1 = ([2], [4]) \<and>
   fst (getDesignVarRange ex_dv_p0 [0] [0] 1) ! 0 \<noteq> max 1 2 \<and>
   snd (getDesignVarRange ex_dv_p0 [0] [0] 1) ! 0 \<noteq> min 5 4 \<and>
   getDesignVars [ex_dv_p0, ex_dv_p1] 1 = [max 3 4]"
  by (simp add: getDesignVarRange_def getDesignVars_def getDesignVars_local_def MPI_Allreduce_MAX_def
      ex_dv_p0_def ex_dv_p1_def ex_dv_element_def TACSAssembler_new_def Let_def ev)

subsection \<open>Reordering\<close>

text \<open>The loops over \<^verbatim>\<open>reducedNodes\<close>, by their effect on each entry.\<close>

lemma fold_set_length [simp]: "length (fold (\<lambda>i r. r[i := v]) xs r) = length r"
  by (induction xs arbitrary: r) simp_all

lemma fold_set_range:
  "length (fold (\<lambda>i r. r[i := v]) [l ..< u] r) = length r \<and>
   (\<forall>i < length r. fold (\<lambda>i r. r[i := v]) [l ..< u] r ! i = (if l \<le> i \<and> i < u then v else r ! i))"
proof (induction u)
  case 0
  then show ?case by simp
next
  case (Suc u)
  show ?case
  proof (cases "l \<le> u")
    case True
    then show ?thesis using Suc by (auto simp: nth_list_update less_Suc_eq)
  next
    case False
    then show ?thesis by auto
  qed
qed

lemma fold_set_nth:
  "i < length r \<Longrightarrow>
   fold (\<lambda>i r. r[i := v]) [l ..< u] r ! i = (if l \<le> i \<and> i < u then v else r ! i)"
  using fold_set_range [of v l u r] by blast

lemma mark_nodes_length [simp]: "length (mark_nodes nodes r) = length r"
  by (induction nodes arbitrary: r) (simp_all add: mark_nodes_def)

lemma mark_nodes_nth:
  "i < length r \<Longrightarrow> \<forall>x \<in> set nodes. 0 \<le> x \<Longrightarrow>
   mark_nodes nodes r ! i = (if int i \<in> set nodes then - 1 else r ! i)"
proof (induction nodes arbitrary: r)
  case Nil
  then show ?case by (simp add: mark_nodes_def)
next
  case (Cons x xs)
  have "mark_nodes (x # xs) r = mark_nodes xs (r[nat x := - 1])" by (simp add: mark_nodes_def)
  moreover have "mark_nodes xs (r[nat x := - 1]) ! i =
                 (if int i \<in> set xs then - 1 else r[nat x := - 1] ! i)"
    using Cons by simp
  moreover have "nat x = i \<longleftrightarrow> x = int i" using Cons.prems(2) by auto
  ultimately show ?case using Cons.prems(1) by (auto simp: nth_list_update)
qed

lemma cnt_Suc: "k < length r \<Longrightarrow> cnt r (Suc k) = cnt r k + (if r ! k \<ge> 0 then 1 else 0)"
  by (simp add: cnt_def take_Suc_conv_app_nth)

lemma cnt_mono: "i \<le> j \<Longrightarrow> cnt r i \<le> cnt r j"
proof (induction j)
  case 0
  then show ?case by simp
next
  case (Suc j)
  show ?case
  proof (cases "i = Suc j")
    case True
    then show ?thesis by simp
  next
    case False
    with Suc have le: "cnt r i \<le> cnt r j" by simp
    show ?thesis
    proof (cases "j < length r")
      case True
      then show ?thesis using le by (simp add: cnt_Suc)
    next
      case False
      then show ?thesis using le by (simp add: cnt_def)
    qed
  qed
qed

lemma cnt_cong:
  "length r = length r' \<Longrightarrow> \<forall>i < length r. (r ! i \<ge> 0) = (r' ! i \<ge> 0) \<Longrightarrow> cnt r k = cnt r' k"
proof (induction k)
  case 0
  then show ?case by (simp add: cnt_def)
next
  case (Suc k)
  show ?case
  proof (cases "k < length r")
    case True
    then show ?thesis using Suc by (simp add: cnt_Suc)
  next
    case False
    then show ?thesis using Suc by (simp add: cnt_def)
  qed
qed

lemma number_reduced_inv:
  assumes "n \<le> length r"
  shows "case number_reduced r n of (r', c) \<Rightarrow>
           length r' = length r \<and> c = int (cnt r n) \<and>
           (\<forall>i < length r. n \<le> i \<longrightarrow> r' ! i = r ! i) \<and>
           (\<forall>i < length r. (r' ! i \<ge> 0) = (r ! i \<ge> 0))"
  using assms
proof (induction n)
  case 0
  then show ?case by (simp add: number_reduced_def cnt_def)
next
  case (Suc n)
  obtain r' c where rc: "number_reduced r n = (r', c)" by (cases "number_reduced r n")
  have step: "number_reduced r (Suc n) =
                (if r' ! n \<ge> 0 then (r'[n := c], c + 1) else (r', c))"
    using rc by (simp add: number_reduced_def)
  from Suc rc have IH: "length r' = length r" "c = int (cnt r n)"
    "\<forall>i < length r. n \<le> i \<longrightarrow> r' ! i = r ! i"
    "\<forall>i < length r. (r' ! i \<ge> 0) = (r ! i \<ge> 0)" by auto
  have n: "n < length r" using Suc.prems by simp
  then have rn: "r' ! n = r ! n" using IH(3) by simp
  show ?case
    unfolding step using IH n rn by (auto simp: cnt_Suc nth_list_update)
qed

lemma place_reduced_inv:
  assumes "n \<le> length r" "n \<le> length nn"
  shows "case fold (\<lambda>i (nn, j). if r ! i \<ge> 0 then (nn[i := offset + newR ! j], Suc j) else (nn, j))
                [0 ..< n] (nn, 0) of (nn', j) \<Rightarrow>
           length nn' = length nn \<and> j = cnt r n \<and>
           (\<forall>i < length nn. nn' ! i = (if i < n \<and> r ! i \<ge> 0 then offset + newR ! cnt r i else nn ! i))"
  using assms
proof (induction n)
  case 0
  then show ?case by (simp add: cnt_def)
next
  case (Suc n)
  let ?f = "\<lambda>i (nn, j). if r ! i \<ge> 0 then (nn[i := offset + newR ! j], Suc j) else (nn, j)"
  obtain nn' j where nj: "fold ?f [0 ..< n] (nn, 0) = (nn', j)" by (cases "fold ?f [0 ..< n] (nn, 0)")
  from Suc nj have IH: "length nn' = length nn" "j = cnt r n"
    "\<forall>i < length nn. nn' ! i = (if i < n \<and> r ! i \<ge> 0 then offset + newR ! cnt r i else nn ! i)"
    by auto
  have step: "fold ?f [0 ..< Suc n] (nn, 0) =
                (if r ! n \<ge> 0 then (nn'[n := offset + newR ! j], Suc j) else (nn', j))"
    using nj by simp
  have n: "n < length r" "n < length nn" using Suc.prems by simp_all
  show ?case
    unfolding step using IH n by (auto simp: cnt_Suc nth_list_update less_Suc_eq)
qed

lemma place_reduced_length:
  assumes "n \<le> length r" "n \<le> length nn"
  shows "length (place_reduced r newR offset n nn) = length nn"
  using place_reduced_inv [OF assms, of offset newR]
  by (auto simp: place_reduced_def split: prod.splits)

lemma place_reduced_nth:
  assumes "n \<le> length r" "n \<le> length nn" "i < length nn"
  shows "place_reduced r newR offset n nn ! i =
           (if i < n \<and> r ! i \<ge> 0 then offset + newR ! cnt r i else nn ! i)"
  using place_reduced_inv [OF assms(1,2), of offset newR] assms(3)
  by (auto simp: place_reduced_def split: prod.splits)

lemma number_remaining_inv:
  assumes "l \<le> u" "u \<le> length r"
  shows "case number_remaining r l u of (r', c) \<Rightarrow>
           length r' = length r \<and> c = int (length (filter (\<lambda>i. r ! i < 0) [l ..< u])) \<and>
           (\<forall>i < length r. (l \<le> i \<and> i < u \<longrightarrow> (r' ! i \<ge> 0) = (r ! i < 0)) \<and>
                            (\<not> (l \<le> i \<and> i < u) \<longrightarrow> r' ! i = r ! i))"
  using assms
proof (induction u rule: dec_induct)
  case base
  then show ?case by (simp add: number_remaining_def)
next
  case (step u)
  obtain r' c where rc: "number_remaining r l u = (r', c)" by (cases "number_remaining r l u")
  have st: "number_remaining r l (Suc u) =
              (if r' ! u < 0 then (r'[u := c], c + 1) else (r'[u := - 1], c))"
    using rc step.hyps(1) by (simp add: number_remaining_def)
  from step rc have IH: "length r' = length r" "c = int (length (filter (\<lambda>i. r ! i < 0) [l ..< u]))"
    "\<forall>i < length r. (l \<le> i \<and> i < u \<longrightarrow> (r' ! i \<ge> 0) = (r ! i < 0)) \<and>
                     (\<not> (l \<le> i \<and> i < u) \<longrightarrow> r' ! i = r ! i)" by auto
  have u: "u < length r" using step.prems by simp
  then have ru: "r' ! u = r ! u" using IH(3) by simp
  have c0: "0 \<le> c" using IH(2) by simp
  show ?case
    unfolding st using IH u ru c0 step.hyps(1) by (auto simp: nth_list_update less_Suc_eq)
qed

lemma cnt_card: "cnt r (length r) = card {i. i < length r \<and> r ! i \<ge> 0}"
  by (simp add: cnt_def length_filter_conv_card)

lemma cnt_bij:
  "bij_betw (cnt r) {i. i < length r \<and> r ! i \<ge> 0} {..< cnt r (length r)}"
proof -
  let ?P = "{i. i < length r \<and> r ! i \<ge> 0}"
  have less: "cnt r i < cnt r j" if "i \<in> ?P" "i < j" for i j
  proof -
    have "cnt r i < cnt r (Suc i)" using that(1) by (simp add: cnt_Suc)
    also have "\<dots> \<le> cnt r j" using that(2) by (intro cnt_mono) simp
    finally show ?thesis .
  qed
  have inj: "inj_on (cnt r) ?P"
  proof (rule inj_onI)
    fix i j assume ij: "i \<in> ?P" "j \<in> ?P" "cnt r i = cnt r j"
    show "i = j"
    proof (rule ccontr)
      assume "i \<noteq> j"
      then consider "i < j" | "j < i" by linarith
      then show False
      proof cases
        case 1
        from less [OF ij(1) 1] ij(3) show False by simp
      next
        case 2
        from less [OF ij(2) 2] ij(3) show False by simp
      qed
    qed
  qed
  have sub: "cnt r ` ?P \<subseteq> {..< cnt r (length r)}"
  proof
    fix c assume "c \<in> cnt r ` ?P"
    then obtain i where i: "i \<in> ?P" "c = cnt r i" by blast
    then have "cnt r i < cnt r (Suc i)" by (simp add: cnt_Suc)
    also have "\<dots> \<le> cnt r (length r)" using i by (intro cnt_mono) simp
    finally show "c \<in> {..< cnt r (length r)}" using i by simp
  qed
  have "card (cnt r ` ?P) = card {..< cnt r (length r)}"
    using inj by (simp add: card_image cnt_card)
  then have "cnt r ` ?P = {..< cnt r (length r)}"
    using sub by (intro card_subset_eq) simp_all
  then show ?thesis using inj by (simp add: bij_betw_def)
qed

lemma is_perm_distinct: "is_perm n xs \<Longrightarrow> distinct xs"
  by (rule card_distinct) (simp add: is_perm_def)

lemma is_perm_bij:
  assumes "is_perm n xs"
  shows "bij_betw (\<lambda>j. xs ! j) {..< nat n} {0 ..< n}"
proof -
  have d: "distinct xs" using assms by (rule is_perm_distinct)
  have l: "{..< nat n} = {..< length xs}" and s: "{0 ..< n} = set xs"
    using assms by (simp_all add: is_perm_def)
  show ?thesis by (rule bij_betw_nth [OF d l s])
qed

lemma place_block_bij:
  assumes p: "is_perm (int (cnt r (length r))) newR"
  shows "bij_betw (\<lambda>i. offset + newR ! cnt r i) {i. i < length r \<and> r ! i \<ge> 0}
           {offset ..< offset + int (cnt r (length r))}"
proof -
  let ?m = "cnt r (length r)"
  have 1: "bij_betw (cnt r) {i. i < length r \<and> r ! i \<ge> 0} {..< ?m}" by (rule cnt_bij)
  have 2: "bij_betw (\<lambda>j. newR ! j) {..< ?m} {0 ..< int ?m}" using is_perm_bij [OF p] by simp
  have 3: "bij_betw (\<lambda>x. offset + x) {0 ..< int ?m} {offset ..< offset + int ?m}"
    by (rule bij_betw_byWitness [where f' = "\<lambda>y. y - offset"]) auto
  have "bij_betw ((\<lambda>x. offset + x) \<circ> ((\<lambda>j. newR ! j) \<circ> cnt r)) {i. i < length r \<and> r ! i \<ge> 0}
          {offset ..< offset + int ?m}"
    by (rule bij_betw_trans [OF bij_betw_trans [OF 1 2] 3])
  then show ?thesis by (simp add: comp_def)
qed

text \<open>\<^verbatim>\<open>computeMatReordering\<close> returns a permutation when the back ends do.\<close>

lemma invert_perm_is_perm:
  assumes p: "is_perm n perm" and l: "length nv = nat n"
  shows "is_perm n (invert_perm perm (nat n) nv)"
proof -
  let ?m = "nat n"
  let ?f = "\<lambda>k nv. nv[nat (perm ! k) := int k]"
  have d: "distinct perm" using p by (rule is_perm_distinct)
  have len: "length perm = ?m" and st: "set perm = {0 ..< n}" using p by (simp_all add: is_perm_def)
  have rng: "0 \<le> perm ! k \<and> perm ! k < n" if "k < ?m" for k
    using that len st nth_mem [of k perm] by auto
  have inv: "k \<le> ?m \<Longrightarrow> length (fold ?f [0 ..< k] nv) = ?m \<and>
               (\<forall>j < k. fold ?f [0 ..< k] nv ! nat (perm ! j) = int j)" for k
  proof (induction k)
    case 0
    then show ?case using l by simp
  next
    case (Suc k)
    then have IH: "length (fold ?f [0 ..< k] nv) = ?m"
      "\<forall>j < k. fold ?f [0 ..< k] nv ! nat (perm ! j) = int j" by simp_all
    have k: "k < ?m" using Suc.prems by simp
    have ne: "nat (perm ! j) \<noteq> nat (perm ! k)" if "j < k" for j
    proof -
      have "perm ! j \<noteq> perm ! k" using d that k len by (simp add: nth_eq_iff_index_eq)
      then show ?thesis using rng [of j] rng [of k] that k by (simp add: eq_nat_nat_iff)
    qed
    have km: "nat (perm ! k) < ?m" using rng [OF k] by simp
    have "fold ?f [0 ..< Suc k] nv ! nat (perm ! j) = int j" if j: "j < Suc k" for j
    proof (cases "j = k")
      case True
      then show ?thesis using km IH(1) by simp
    next
      case False
      then have "j < k" using j by simp
      then show ?thesis using IH(2) ne [of j] by simp
    qed
    then show ?case using IH(1) by simp
  qed
  let ?r = "invert_perm perm ?m nv"
  have lr: "length ?r = ?m" and val: "\<And>j. j < ?m \<Longrightarrow> ?r ! nat (perm ! j) = int j"
    using inv [of ?m] by (simp_all add: invert_perm_def)
  have "set ?r = {0 ..< n}"
  proof (rule set_eqI, rule iffI)
    fix x assume "x \<in> set ?r"
    then obtain i where i: "i < ?m" "?r ! i = x" using lr by (auto simp: in_set_conv_nth)
    then have "int i \<in> set perm" using st by simp
    then obtain j where j: "j < ?m" "perm ! j = int i" using len by (auto simp: in_set_conv_nth)
    then have "x = int j" using val [of j] i by simp
    then show "x \<in> {0 ..< n}" using j by simp
  next
    fix x assume x: "x \<in> {0 ..< n}"
    then have "nat x < ?m" by simp
    then have "?r ! nat (perm ! nat x) = x" using val [of "nat x"] x by simp
    moreover have "nat (perm ! nat x) < length ?r" using rng [of "nat x"] x lr by simp
    ultimately show "x \<in> set ?r" using nth_mem [of "nat (perm ! nat x)" ?r] by simp
  qed
  then show ?thesis using lr by (simp add: is_perm_def)
qed

lemma natural_order_is_perm:
  assumes l: "length nv = nat n"
  shows "is_perm n (fold (\<lambda>k nv. nv[k := int k]) [0 ..< nat n] nv)"
proof -
  let ?f = "\<lambda>k (nv :: int list). nv[k := int k]"
  have inv: "k \<le> nat n \<Longrightarrow> fold ?f [0 ..< k] nv = map int [0 ..< k] @ drop k nv" for k
  proof (induction k)
    case 0
    then show ?case by simp
  next
    case (Suc k)
    then have k: "k < length nv" using l by simp
    have "fold ?f [0 ..< Suc k] nv = (map int [0 ..< k] @ drop k nv)[k := int k]"
      using Suc by simp
    also have "\<dots> = map int [0 ..< k] @ (drop k nv)[0 := int k]"
      by (simp add: list_update_append)
    also have "drop k nv = nv ! k # drop (Suc k) nv" using k by (simp add: Cons_nth_drop_Suc)
    finally show ?case by simp
  qed
  have "fold ?f [0 ..< nat n] nv = map int [0 ..< nat n]" using inv [of "nat n"] l by simp
  moreover have "set (map int [0 ..< nat n]) = {0 ..< n}"
  proof (cases "0 \<le> n")
    case True
    have "set (map int [0 ..< nat n]) = int ` {0 ..< nat n}" by simp
    also have "\<dots> = {int 0 ..< int (nat n)}" by (rule image_int_atLeastLessThan)
    finally show ?thesis using True by simp
  next
    case False
    then show ?thesis by simp
  qed
  ultimately show ?thesis by (simp add: is_perm_def)
qed

lemma computeMatReordering_is_perm:
  assumes "backends_ok be" "length nv = nat n"
  shows "is_perm n (computeMatReordering be order_type n rowp cols nv)"
proof -
  have b: "is_perm n (be_ComputeRCMOrder be n rowp cols)" "is_perm n (be_amd_order be n rowp cols)"
    "is_perm n (snd (be_METIS_NodeND be n rowp cols))" "is_perm n (be_amd_order_interface be n rowp cols)"
    using assms(1) unfolding backends_ok_def by blast+
  show ?thesis
    using b assms(2)
    by (cases order_type)
       (simp_all add: computeMatReordering_def invert_perm_is_perm natural_order_is_perm)
qed

text \<open>
  The two numbering passes, on lists alone: the entries of \<open>[off, off + w)\<close> that are
  non-negative after the marking get the numbers \<open>lo, ..., lo + c1 - 1\<close>, the others of
  \<open>[off, off + w)\<close> the numbers \<open>lo + c1, ..., lo + w - 1\<close>.
\<close>

lemma two_blocks:
  assumes len: "length r3 = n" "length nn0 = n" and ow: "off + w \<le> n"
    and ext: "\<forall>i < n. r3 ! i \<ge> 0 \<longrightarrow> off \<le> i \<and> i < off + w"
    and p1: "number_reduced r3 n = (r4, c1)" and q1: "is_perm c1 newR1"
    and nn1: "nn1 = place_reduced r4 newR1 lo n nn0"
    and p2: "number_remaining r4 off (off + w) = (r5, c2)" and q2: "c2 > 0 \<longrightarrow> is_perm c2 newR2"
    and nn2: "nn2 = (if c2 > 0 then place_reduced r5 newR2 (lo + c1) n nn1 else nn1)"
  shows "c1 + c2 = int w \<and> 0 \<le> c1 \<and> 0 \<le> c2 \<and> length nn2 = n \<and>
         (\<forall>i. off \<le> i \<and> i < off + w \<longrightarrow>
            (if r3 ! i \<ge> 0 then lo \<le> nn2 ! i \<and> nn2 ! i < lo + c1
             else lo + c1 \<le> nn2 ! i \<and> nn2 ! i < lo + int w)) \<and>
         bij_betw (\<lambda>i. nn2 ! i) {off ..< off + w} {lo ..< lo + int w}"
proof -
  let ?O = "{off ..< off + w}"
  let ?M = "{i. i < n \<and> r3 ! i \<ge> 0}"
  have r4: "length r4 = n" "c1 = int (cnt r3 n)" "\<forall>i < n. (r4 ! i \<ge> 0) = (r3 ! i \<ge> 0)"
    using number_reduced_inv [of n r3] len(1) p1 by auto
  have cnt4: "cnt r4 k = cnt r3 k" for k
    using r4 len by (intro cnt_cong) simp_all
  have M4: "{i. i < length r4 \<and> r4 ! i \<ge> 0} = ?M" using r4 by auto
  have r5: "length r5 = n" "c2 = int (length (filter (\<lambda>i. r4 ! i < 0) [off ..< off + w]))"
    "\<forall>i < n. (off \<le> i \<and> i < off + w \<longrightarrow> (r5 ! i \<ge> 0) = (r4 ! i < 0)) \<and>
                (\<not> (off \<le> i \<and> i < off + w) \<longrightarrow> r5 ! i = r4 ! i)"
    using number_remaining_inv [of off "off + w" r4] r4(1) ow p2 by auto
  let ?P = "{i. i < n \<and> r5 ! i \<ge> 0}"
  have MO: "?M \<subseteq> ?O" using ext by auto
  have P: "?P = ?O - ?M"
  proof (rule set_eqI)
    fix i
    show "i \<in> ?P \<longleftrightarrow> i \<in> ?O - ?M"
    proof (cases "off \<le> i \<and> i < off + w")
      case True
      then have "i < n" using ow by simp
      then show ?thesis using True r5(3) r4(3) by auto
    next
      case False
      then show ?thesis using r5(3) r4(3) ext by auto
    qed
  qed
  have c2card: "c2 = int (card ?P)"
  proof -
    have "length (filter (\<lambda>i. r4 ! i < 0) [off ..< off + w]) = card ({i. r4 ! i < 0} \<inter> set [off ..< off + w])"
      by (rule distinct_length_filter) simp
    also have "{i. r4 ! i < 0} \<inter> set [off ..< off + w] = ?O - ?M"
    proof (rule set_eqI)
      fix i
      show "i \<in> {i. r4 ! i < 0} \<inter> set [off ..< off + w] \<longleftrightarrow> i \<in> ?O - ?M"
      proof (cases "off \<le> i \<and> i < off + w")
        case True
        then have "i < n" using ow by simp
        then have "(r4 ! i \<ge> 0) = (r3 ! i \<ge> 0)" using r4(3) by simp
        then show ?thesis using True \<open>i < n\<close> by auto
      next
        case False
        then show ?thesis by auto
      qed
    qed
    finally show ?thesis using r5(2) P by simp
  qed
  have c2cnt: "c2 = int (cnt r5 (length r5))"
    using c2card r5(1) cnt_card [of r5] by simp
  have c1card: "c1 = int (card ?M)" using r4(2) len(1) cnt_card [of r3] by simp
  have "card ?M + card (?O - ?M) = card ?O"
    using MO by (metis card_Diff_subset card_mono finite_atLeastLessThan finite_subset le_add_diff_inverse)
  then have sum: "c1 + c2 = int w" using c1card c2card P by simp
  have l1: "length nn1 = n" using nn1 len r4 by (simp add: place_reduced_length)
  have v1: "nn1 ! i = (if r4 ! i \<ge> 0 then lo + newR1 ! cnt r4 i else nn0 ! i)" if "i < n" for i
    using that nn1 len r4 place_reduced_nth [of n r4 nn0 i newR1 lo] by simp
  have b1: "bij_betw (\<lambda>i. lo + newR1 ! cnt r4 i) ?M {lo ..< lo + c1}"
    using place_block_bij [of r4 newR1 lo] q1 r4 cnt4 M4 by simp
  have l2: "length nn2 = n" using nn2 l1 r5 by (simp add: place_reduced_length)
  have v2: "nn2 ! i = (if r5 ! i \<ge> 0 then lo + c1 + newR2 ! cnt r5 i else nn1 ! i)" if "i < n" for i
  proof (cases "c2 > 0")
    case True
    then show ?thesis
      using that nn2 l1 r5 place_reduced_nth [of n r5 nn1 i newR2 "lo + c1"] by simp
  next
    case False
    then have "card ?P = 0" using c2card by simp
    then have "?P = {}" by simp
    then have "\<not> r5 ! i \<ge> 0" using that by blast
    then show ?thesis using False nn2 by simp
  qed
  have b2: "bij_betw (\<lambda>i. lo + c1 + newR2 ! cnt r5 i) ?P {lo + c1 ..< lo + c1 + c2}"
  proof (cases "c2 > 0")
    case True
    then show ?thesis
      using place_block_bij [of r5 newR2 "lo + c1"] q2 c2cnt r5(1) by simp
  next
    case False
    then have "card ?P = 0" "c2 = 0" using c2card by simp_all
    then have e: "?P = {}" by simp
    show ?thesis unfolding e using \<open>c2 = 0\<close> by (simp add: bij_betw_def)
  qed
  have FM: "nn2 ! i = lo + newR1 ! cnt r4 i" if "i \<in> ?M" for i
  proof -
    have "i < n" "\<not> r5 ! i \<ge> 0" using that P by auto
    then show ?thesis using v2 v1 that r4(3) by simp
  qed
  have FP: "nn2 ! i = lo + c1 + newR2 ! cnt r5 i" if "i \<in> ?P" for i
    using that v2 by simp
  have B1: "bij_betw (\<lambda>i. nn2 ! i) ?M {lo ..< lo + c1}"
  proof -
    have "bij_betw (\<lambda>i. nn2 ! i) ?M {lo ..< lo + c1} =
          bij_betw (\<lambda>i. lo + newR1 ! cnt r4 i) ?M {lo ..< lo + c1}"
      by (rule bij_betw_cong) (rule FM)
    then show ?thesis using b1 by simp
  qed
  have B2: "bij_betw (\<lambda>i. nn2 ! i) ?P {lo + c1 ..< lo + c1 + c2}"
  proof -
    have "bij_betw (\<lambda>i. nn2 ! i) ?P {lo + c1 ..< lo + c1 + c2} =
          bij_betw (\<lambda>i. lo + c1 + newR2 ! cnt r5 i) ?P {lo + c1 ..< lo + c1 + c2}"
      by (rule bij_betw_cong) (rule FP)
    then show ?thesis using b2 by simp
  qed
  have c0: "0 \<le> c1" "0 \<le> c2" using c1card c2card by simp_all
  have "bij_betw (\<lambda>i. nn2 ! i) (?M \<union> ?P) ({lo ..< lo + c1} \<union> {lo + c1 ..< lo + c1 + c2})"
    by (rule bij_betw_combine [OF B1 B2]) auto
  moreover have "?M \<union> ?P = ?O" using P MO by auto
  moreover have "{lo ..< lo + c1} \<union> {lo + c1 ..< lo + c1 + c2} = {lo ..< lo + int w}"
    using sum c0 by auto
  ultimately have B: "bij_betw (\<lambda>i. nn2 ! i) ?O {lo ..< lo + int w}" by simp
  have blocks: "if r3 ! i \<ge> 0 then lo \<le> nn2 ! i \<and> nn2 ! i < lo + c1
                else lo + c1 \<le> nn2 ! i \<and> nn2 ! i < lo + int w" if i: "off \<le> i \<and> i < off + w" for i
  proof (cases "r3 ! i \<ge> 0")
    case True
    then have "i \<in> ?M" using i ow by simp
    then have "nn2 ! i \<in> {lo ..< lo + c1}" using B1 by (auto simp: bij_betw_def)
    then show ?thesis using True by simp
  next
    case False
    then have "i \<in> ?P" using i P by simp
    then have "nn2 ! i \<in> {lo + c1 ..< lo + c1 + c2}" using B2 by (auto simp: bij_betw_def)
    then show ?thesis using False sum by simp
  qed
  show ?thesis using sum c0 l2 blocks B by blast
qed

lemma fold_update_other:
  "\<forall>i \<in> {l ..< u}. g i \<noteq> j \<Longrightarrow> fold (\<lambda>i nn. nn[g i := h i]) [l ..< u] nn ! j = nn ! j"
proof (induction u)
  case 0
  then show ?case by simp
next
  case (Suc u)
  show ?case
  proof (cases "l \<le> u")
    case True
    then show ?thesis using Suc by simp
  next
    case False
    then show ?thesis by simp
  qed
qed

lemma computeLocalNodeToNodeCSR_reduced_defined:
  assumes "conn_resolves a"
  shows "\<exists>rowp cols. computeLocalNodeToNodeCSR_reduced a m r nodiag = Some (rowp, cols)"
proof -
  from computeNodeToElementCSR_rows [OF assms] obtain ptr n2e
    where "computeNodeToElementCSR a = Some (ptr, n2e)" by blast
  then show ?thesis
    by (simp add: computeLocalNodeToNodeCSR_reduced_def Let_def case_prod_beta)
qed

lemma apply_reordering_owned:
  assumes "0 \<le> extNodeOffset a" "0 \<le> numOwnedNodes a"
    "nat (extNodeOffset a) \<le> j" "j < nat (extNodeOffset a) + nat (numOwnedNodes a)"
  shows "the (newNodeIndices (apply_reordering a nn newExt)) ! j = nn ! j"
proof -
  let ?nn1 = "fold (\<lambda>i nn. nn[i := newExt ! i]) [0 ..< nat (extNodeOffset a)] nn"
  have 1: "?nn1 ! j = nn ! j"
    using assms(3) by (intro fold_update_other) auto
  have 2: "fold (\<lambda>i nn. nn[nat (int i + numOwnedNodes a) := newExt ! i])
             [nat (extNodeOffset a) ..< nat (numExtNodes a)] ?nn1 ! j = ?nn1 ! j"
    using assms by (intro fold_update_other) auto
  show ?thesis using 1 2 by (simp add: apply_reordering_def Let_def)
qed

lemma reorder_local_direct_schur:
  assumes par: "mpiSize a \<noteq> 1" and res: "conn_resolves a" and be: "backends_ok be"
    and r3: "r3 = mark_nodes cn
                    (fold (\<lambda>i r. r[i := - 1]) [nat (extNodeOffset a + numOwnedNodes a) ..< nat (numNodes a)]
                       (fold (\<lambda>i r. r[i := - 1]) [0 ..< nat (extNodeOffset a)]
                          (replicate (nat (numNodes a)) 0)))"
  shows "\<exists>r4 c1 r5 c2 newR1 newR2.
           number_reduced r3 (nat (numNodes a)) = (r4, c1) \<and> is_perm c1 newR1 \<and>
           number_remaining r4 (nat (extNodeOffset a)) (nat (extNodeOffset a + numOwnedNodes a)) = (r5, c2) \<and>
           (c2 > 0 \<longrightarrow> is_perm c2 newR2) \<and>
           reorder_local be junk a cn order_type DIRECT_SCHUR =
             Some (if c2 > 0
                   then place_reduced r5 newR2 (owner_lo a + c1) (nat (numNodes a))
                          (place_reduced r4 newR1 (owner_lo a) (nat (numNodes a))
                             (replicate (nat (numNodes a)) junk))
                   else place_reduced r4 newR1 (owner_lo a) (nat (numNodes a))
                          (replicate (nat (numNodes a)) junk))"
proof -
  let ?n = "nat (numNodes a)"
  let ?nd = "order_type = ND_ORDER"
  obtain r4 c1 where p1: "number_reduced r3 ?n = (r4, c1)" by (cases "number_reduced r3 ?n")
  obtain rowp cols where csr1: "computeLocalNodeToNodeCSR_reduced a c1 r4 ?nd = Some (rowp, cols)"
    using computeLocalNodeToNodeCSR_reduced_defined [OF res] by blast
  define newR1 where "newR1 = computeMatReordering be order_type c1 rowp cols (replicate (nat c1) junk)"
  have q1: "is_perm c1 newR1"
    unfolding newR1_def using be by (intro computeMatReordering_is_perm) simp_all
  obtain r5 c2 where p2: "number_remaining r4 (nat (extNodeOffset a))
                            (nat (extNodeOffset a + numOwnedNodes a)) = (r5, c2)"
    by (cases "number_remaining r4 (nat (extNodeOffset a)) (nat (extNodeOffset a + numOwnedNodes a))")
  obtain rowp2 cols2 where csr2: "computeLocalNodeToNodeCSR_reduced a c2 r5 ?nd = Some (rowp2, cols2)"
    using computeLocalNodeToNodeCSR_reduced_defined [OF res] by blast
  define newR2 where "newR2 = computeMatReordering be order_type c2 rowp2 cols2 (replicate (nat c2) junk)"
  have q2: "is_perm c2 newR2"
    unfolding newR2_def using be by (intro computeMatReordering_is_perm) simp_all
  have "reorder_local be junk a cn order_type DIRECT_SCHUR =
             Some (if c2 > 0
                   then place_reduced r5 newR2 (owner_lo a + c1) ?n
                          (place_reduced r4 newR1 (owner_lo a) ?n (replicate ?n junk))
                   else place_reduced r4 newR1 (owner_lo a) ?n (replicate ?n junk))"
    using par p1 csr1 p2 csr2
    by (simp add: reorder_local_def Let_def r3 [symmetric] newR1_def newR2_def)
  then show ?thesis using p1 q1 p2 q2 by blast
qed

lemma computeExtNodes_frame:
  assumes "fst (computeExtNodes a) = 0"
  shows "mpiSize (snd (snd (computeExtNodes a))) = mpiSize a"
    "owner_lo (snd (snd (computeExtNodes a))) = owner_lo a"
    "owner_hi (snd (snd (computeExtNodes a))) = owner_hi a"
    "numOwnedNodes (snd (snd (computeExtNodes a))) = numOwnedNodes a"
    "newNodeIndices (snd (snd (computeExtNodes a))) = newNodeIndices a"
  unfolding computeExtNodes_result [OF assms] by (simp_all add: owner_lo_def owner_hi_def)

text \<open>
  C1: on more than one process, with \<^verbatim>\<open>DIRECT_SCHUR\<close>, any ordering type and back ends
  that return permutations, \<^verbatim>\<open>computeReordering\<close> gives the owned nodes new numbers
  that are pairwise different and fill \<open>[ownerRange[rank], ownerRange[rank+1])\<close>, and there
  is a split point \<open>n1\<close> such that every owned node not among the coupling nodes gets a
  number below \<open>ownerRange[rank] + n1\<close> and every owned coupling node a number at or above
  it; so every owned coupling node is numbered above every owned node that is not one.
  The hypotheses: the call is the first and precedes \<^verbatim>\<open>initialize\<close>, the owner range
  has \<^verbatim>\<open>numOwnedNodes\<close> nodes, the connectivity resolves to local nodes once the
  external nodes are computed, and the other processes ask only for nodes this process owns.
\<close>

theorem computeReordering_direct_schur_blocks:
  assumes par: "1 < mpiSize a"
    and pre: "\<not> meshInitializedFlag a" "elementNodeIndex a \<noteq> None" "tacsExtNodeNums a = None"
    and own: "owner_hi a - owner_lo a = numOwnedNodes a" "owner_lo a \<le> owner_hi a"
    and res: "conn_resolves (snd (snd (computeExtNodes a)))"
    and recv: "\<forall>g \<in> set recvNodes. owner_lo a \<le> g \<and> g < owner_hi a"
    and be: "backends_ok be"
  shows "\<exists>a'. computeReordering be junk recvNodes newExtNodes a order_type DIRECT_SCHUR = Some a' \<and>
           length (getReordering a') = nat (numOwnedNodes a) \<and>
           distinct (getReordering a') \<and>
           set (getReordering a') = {owner_lo a ..< owner_hi a} \<and>
           (\<exists>n1. \<forall>k < nat (numOwnedNodes a).
              if extNodeOffset a' + int k \<in>
                   set (computeCouplingNodes (snd (snd (computeExtNodes a))) recvNodes)
              then owner_lo a + n1 \<le> getReordering a' ! k
              else getReordering a' ! k < owner_lo a + n1) \<and>
           (\<forall>k < nat (numOwnedNodes a). \<forall>j < nat (numOwnedNodes a).
              extNodeOffset a' + int k \<notin>
                   set (computeCouplingNodes (snd (snd (computeExtNodes a))) recvNodes) \<and>
              extNodeOffset a' + int j \<in>
                   set (computeCouplingNodes (snd (snd (computeExtNodes a))) recvNodes) \<longrightarrow>
              getReordering a' ! k < getReordering a' ! j)"
proof -
  let ?a1 = "snd (snd (computeExtNodes a))"
  let ?cn = "computeCouplingNodes ?a1 recvNodes"
  have ok: "fst (computeExtNodes a) = 0" using pre by (simp add: computeExtNodes_ok)
  note fr = computeExtNodes_frame [OF ok]
  have L: "ext_layout ?a1" by (rule computeExtNodes_ext_layout [OF ok own])
  then obtain ext where e: "ext_nodes ?a1 = Some ext"
    and ne: "numExtNodes ?a1 = int (length ext)"
    and offv: "extNodeOffset ?a1 = int (length (filter (\<lambda>g. g < owner_lo ?a1) ext))"
    and nn: "numNodes ?a1 = numOwnedNodes ?a1 + numExtNodes ?a1"
    by (auto simp: ext_layout_def split: option.splits)
  let ?n = "nat (numNodes ?a1)"
  let ?off = "nat (extNodeOffset ?a1)"
  let ?w = "nat (numOwnedNodes a)"
  let ?lo = "owner_lo a"
  have w0: "0 \<le> numOwnedNodes a" using own by simp
  have off0: "0 \<le> extNodeOffset ?a1" "extNodeOffset ?a1 \<le> numExtNodes ?a1"
    using offv ne by simp_all
  have n: "?n = ?w + nat (numExtNodes ?a1)" using nn fr(4) w0 ne by (simp add: nat_add_distrib)
  have ow: "?off + ?w \<le> ?n" using n off0 by simp
  have offw: "nat (extNodeOffset ?a1 + numOwnedNodes ?a1) = ?off + ?w"
    using off0 w0 fr(4) by (simp add: nat_add_distrib)
  have offw': "nat (extNodeOffset ?a1 + numOwnedNodes a) = ?off + ?w"
    using offw fr(4) by simp
  \<comment> \<open>the coupling nodes\<close>
  have loc: "getLocalNodeNum ?a1 g = g - ?lo + extNodeOffset ?a1" if "g \<in> set recvNodes" for g
    using that recv fr by (simp add: getLocalNodeNum_def)
  have cn_set: "set ?cn = int ` {0 ..< ?off} \<union> (\<lambda>g. g - ?lo + extNodeOffset ?a1) ` set recvNodes \<union>
                    (\<lambda>i. numOwnedNodes a + int i) ` {?off ..< nat (numExtNodes ?a1)}"
    using loc by (auto simp: computeCouplingNodes_def set_uniqueSort fr(4) image_iff)
  have cn_nonneg: "\<forall>x \<in> set ?cn. 0 \<le> x"
    unfolding cn_set using recv w0 off0 by auto
  have cn_ext: "int i \<in> set ?cn" if "i < ?n" "i < ?off \<or> ?off + ?w \<le> i" for i
  proof (cases "i < ?off")
    case True
    then show ?thesis unfolding cn_set by auto
  next
    case False
    with that have i: "?off + ?w \<le> i" by simp
    have "?off \<le> i - ?w \<and> i - ?w < nat (numExtNodes ?a1)" using i that(1) n by linarith
    then have "i - ?w \<in> {?off ..< nat (numExtNodes ?a1)}" by simp
    moreover have "int i = numOwnedNodes a + int (i - ?w)" using i w0 by simp
    ultimately show ?thesis unfolding cn_set by blast
  qed
  \<comment> \<open>the marks\<close>
  define r3 where "r3 = mark_nodes ?cn
                    (fold (\<lambda>i r. r[i := - 1]) [nat (extNodeOffset ?a1 + numOwnedNodes ?a1) ..< ?n]
                       (fold (\<lambda>i r. r[i := - 1]) [0 ..< ?off] (replicate ?n 0)))"
  have r3len: "length r3 = ?n" by (simp add: r3_def)
  have r3v: "(r3 ! i \<ge> 0) = (int i \<notin> set ?cn)" if i: "i < ?n" for i
  proof -
    let ?r1 = "fold (\<lambda>i r. r[i := - 1]) [0 ..< ?off] (replicate ?n (0::int))"
    let ?r2 = "fold (\<lambda>i r. r[i := - 1]) [nat (extNodeOffset ?a1 + numOwnedNodes ?a1) ..< ?n] ?r1"
    have l1: "length ?r1 = ?n" by simp
    have v1: "?r1 ! i = (if i < ?off then - 1 else 0)"
      using i by (simp add: fold_set_nth)
    have l2: "length ?r2 = ?n" by simp
    have "?r2 ! i = (if nat (extNodeOffset ?a1 + numOwnedNodes ?a1) \<le> i \<and> i < ?n then - 1 else ?r1 ! i)"
      using i l1 by (intro fold_set_nth) simp
    then have v2: "?r2 ! i = (if ?off + ?w \<le> i then - 1 else ?r1 ! i)"
      using i offw by simp
    have "r3 ! i = (if int i \<in> set ?cn then - 1 else ?r2 ! i)"
      unfolding r3_def using i l2 cn_nonneg by (intro mark_nodes_nth) simp_all
    then show ?thesis using v1 v2 cn_ext [OF i] by auto
  qed
  have ext: "\<forall>i < ?n. r3 ! i \<ge> 0 \<longrightarrow> ?off \<le> i \<and> i < ?off + ?w"
    using r3v cn_ext by (metis not_le_imp_less)
  \<comment> \<open>the two passes\<close>
  have par': "mpiSize ?a1 \<noteq> 1" using par fr(1) by simp
  from reorder_local_direct_schur [OF par' res be r3_def, of junk order_type]
  obtain r4 c1 r5 c2 newR1 newR2 where
    p1: "number_reduced r3 ?n = (r4, c1)" and q1: "is_perm c1 newR1"
    and p2: "number_remaining r4 ?off (?off + ?w) = (r5, c2)" and q2: "c2 > 0 \<longrightarrow> is_perm c2 newR2"
    and rl: "reorder_local be junk ?a1 ?cn order_type DIRECT_SCHUR =
               Some (if c2 > 0
                     then place_reduced r5 newR2 (?lo + c1) ?n
                            (place_reduced r4 newR1 ?lo ?n (replicate ?n junk))
                     else place_reduced r4 newR1 ?lo ?n (replicate ?n junk))"
    unfolding fr offw' by blast
  define nn2 where "nn2 = (if c2 > 0
                     then place_reduced r5 newR2 (?lo + c1) ?n
                            (place_reduced r4 newR1 ?lo ?n (replicate ?n junk))
                     else place_reduced r4 newR1 ?lo ?n (replicate ?n junk))"
  have "length (replicate ?n junk) = ?n" by simp
  from two_blocks [OF r3len this ow ext p1 q1 refl p2 q2 nn2_def]
  have sum: "c1 + c2 = int ?w" and c0: "0 \<le> c1" "0 \<le> c2" and l2: "length nn2 = ?n"
    and blocks: "\<And>i. ?off \<le> i \<and> i < ?off + ?w \<Longrightarrow>
                   (if r3 ! i \<ge> 0 then ?lo \<le> nn2 ! i \<and> nn2 ! i < ?lo + c1
                    else ?lo + c1 \<le> nn2 ! i \<and> nn2 ! i < ?lo + int ?w)"
    and B: "bij_betw (\<lambda>i. nn2 ! i) {?off ..< ?off + ?w} {?lo ..< ?lo + int ?w}"
    by blast+
  \<comment> \<open>the result\<close>
  let ?a' = "apply_reordering ?a1 nn2 newExtNodes"
  have cr: "computeReordering be junk recvNodes newExtNodes a order_type DIRECT_SCHUR = Some ?a'"
    using pre rl by (auto simp: computeReordering_def Let_def nn2_def)
  have a'f: "extNodeOffset ?a' = extNodeOffset ?a1" "numOwnedNodes ?a' = numOwnedNodes a"
    "newNodeIndices ?a' \<noteq> None"
    using fr(4) by (simp_all add: apply_reordering_def Let_def)
  have gr: "getReordering ?a' = map (\<lambda>k. nn2 ! (?off + k)) [0 ..< ?w]"
  proof -
    have "the (newNodeIndices ?a') ! (?off + k) = nn2 ! (?off + k)" if "k < ?w" for k
      using that off0 w0 fr(4) by (intro apply_reordering_owned) simp_all
    then show ?thesis using a'f by (auto simp: getReordering_def split: option.splits)
  qed
  have hi: "?lo + int ?w = owner_hi a" using own by simp
  have inj: "inj_on (\<lambda>k. nn2 ! (?off + k)) {0 ..< ?w}"
  proof (rule inj_onI)
    fix x y assume xy: "x \<in> {0 ..< ?w}" "y \<in> {0 ..< ?w}" "nn2 ! (?off + x) = nn2 ! (?off + y)"
    have "inj_on (\<lambda>i. nn2 ! i) {?off ..< ?off + ?w}" using B by (simp add: bij_betw_def)
    then have "?off + x = ?off + y" using xy by (auto dest!: inj_onD)
    then show "x = y" by simp
  qed
  have img: "(\<lambda>k. nn2 ! (?off + k)) ` {0 ..< ?w} = {?lo ..< ?lo + int ?w}"
  proof -
    have "(\<lambda>k. nn2 ! (?off + k)) ` {0 ..< ?w} = (\<lambda>i. nn2 ! i) ` {?off ..< ?off + ?w}"
    proof (rule set_eqI, rule iffI)
      fix x assume "x \<in> (\<lambda>k. nn2 ! (?off + k)) ` {0 ..< ?w}"
      then obtain k where "k < ?w" "x = nn2 ! (?off + k)" by auto
      then show "x \<in> (\<lambda>i. nn2 ! i) ` {?off ..< ?off + ?w}" by (intro image_eqI [of _ _ "?off + k"]) simp_all
    next
      fix x assume "x \<in> (\<lambda>i. nn2 ! i) ` {?off ..< ?off + ?w}"
      then obtain i where i: "?off \<le> i" "i < ?off + ?w" "x = nn2 ! i" by auto
      then have "i - ?off < ?w" "x = nn2 ! (?off + (i - ?off))" by simp_all
      then show "x \<in> (\<lambda>k. nn2 ! (?off + k)) ` {0 ..< ?w}"
        by (intro image_eqI [of _ _ "i - ?off"]) simp_all
    qed
    then show ?thesis using B by (simp add: bij_betw_def)
  qed
  have 1: "length (getReordering ?a') = ?w" by (simp add: gr)
  have 2: "distinct (getReordering ?a')" using inj by (simp add: gr distinct_map)
  have 3: "set (getReordering ?a') = {?lo ..< owner_hi a}" using img hi by (simp add: gr)
  have 4: "if extNodeOffset ?a' + int k \<in> set ?cn
           then ?lo + c1 \<le> getReordering ?a' ! k else getReordering ?a' ! k < ?lo + c1"
    if k: "k < ?w" for k
  proof -
    have i: "?off \<le> ?off + k \<and> ?off + k < ?off + ?w" "?off + k < ?n" using k ow by simp_all
    have "int (?off + k) = extNodeOffset ?a' + int k" using off0 a'f by simp
    then have "(r3 ! (?off + k) \<ge> 0) = (extNodeOffset ?a' + int k \<notin> set ?cn)"
      using r3v [OF i(2)] by simp
    then show ?thesis using blocks [OF i(1)] k by (simp add: gr)
  qed
  have 5: "getReordering ?a' ! k < getReordering ?a' ! j"
    if "k < ?w" "j < ?w" "extNodeOffset ?a' + int k \<notin> set ?cn" "extNodeOffset ?a' + int j \<in> set ?cn"
    for k j
    using 4 [OF that(1)] 4 [OF that(2)] that(3,4) by simp
  show ?thesis
    using cr 1 2 3 4 5 by (intro exI [of _ ?a'] conjI exI [of _ c1]) blast+
qed

lemma ex_backends_ok: "backends_ok ex_backends"
proof -
  have "set (map int [0 ..< nat n]) = {0 ..< n}" for n
  proof (cases "0 \<le> n")
    case True
    have "set (map int [0 ..< nat n]) = int ` {0 ..< nat n}" by simp
    also have "\<dots> = {int 0 ..< int (nat n)}" by (rule image_int_atLeastLessThan)
    finally show ?thesis using True by simp
  next
    case False
    then show ?thesis by simp
  qed
  then have "is_perm n (rev (map int [0 ..< nat n]))" for n
    by (simp add: is_perm_def)
  then show ?thesis by (simp add: backends_ok_def ex_backends_def)
qed

theorem computeReordering_direct_schur_blocks_witness:
  "1 < mpiSize ex_ro_a0 \<and> backends_ok ex_backends \<and>
   conn_resolves (snd (snd (computeExtNodes ex_ro_a0))) \<and>
   computeCouplingNodes (snd (snd (computeExtNodes ex_ro_a0))) [1, 3] = [0, 1, 3] \<and>
   map_option getReordering
     (computeReordering ex_backends 7 [1, 3] [0] ex_ro_a0 RCM_ORDER DIRECT_SCHUR) = Some [4, 2, 3, 1] \<and>
   distinct [4, 2, 3, 1 :: int] \<and>
   set [4, 2, 3, 1] = {owner_lo ex_ro_a0 ..< owner_hi ex_ro_a0}"
proof -
  have h: "1 < mpiSize ex_ro_a0" "\<not> meshInitializedFlag ex_ro_a0" "elementNodeIndex ex_ro_a0 \<noteq> None"
    "tacsExtNodeNums ex_ro_a0 = None" "owner_hi ex_ro_a0 - owner_lo ex_ro_a0 = numOwnedNodes ex_ro_a0"
    "owner_lo ex_ro_a0 \<le> owner_hi ex_ro_a0"
    "conn_resolves (snd (snd (computeExtNodes ex_ro_a0)))"
    by code_simp+
  have r: "\<forall>g \<in> set [1, 3]. owner_lo ex_ro_a0 \<le> g \<and> g < owner_hi ex_ro_a0" by code_simp
  have c: "computeCouplingNodes (snd (snd (computeExtNodes ex_ro_a0))) [1, 3] = [0, 1, 3]"
    by code_simp
  have v: "map_option getReordering
             (computeReordering ex_backends 7 [1, 3] [0] ex_ro_a0 RCM_ORDER DIRECT_SCHUR) = Some [4, 2, 3, 1]"
    by code_simp
  from computeReordering_direct_schur_blocks [OF h r ex_backends_ok, of 7 "[0]" RCM_ORDER]
  obtain a' where a': "computeReordering ex_backends 7 [1, 3] [0] ex_ro_a0 RCM_ORDER DIRECT_SCHUR = Some a'"
    "distinct (getReordering a')" "set (getReordering a') = {owner_lo ex_ro_a0 ..< owner_hi ex_ro_a0}"
    by blast
  have "getReordering a' = [4, 2, 3, 1]" using v a'(1) by simp
  then show ?thesis using a'(2,3) h(1,7) c v ex_backends_ok by simp
qed

subsection \<open>Residual assembly\<close>

text \<open>
  In both branches the vector is zeroed first: the result does not depend on what the
  vector held before the call.
\<close>

lemma assembleRes_independent:
  assumes "\<forall>h. h \<noteq> residual \<longrightarrow> st h = st' h" "length (st residual) = length (st' residual)"
  shows "assembleRes ops sched a st residual = assembleRes ops sched a st' residual"
proof -
  have "zeroEntries (st residual) = zeroEntries (st' residual)"
    using assms(2) by (simp add: zeroEntries_def map_replicate_const)
  then have "st(residual := zeroEntries (st residual)) = st'(residual := zeroEntries (st' residual))"
    using assms(1) by (auto simp: fun_eq_iff)
  then show ?thesis by (simp add: assembleRes_def)
qed

text \<open>
  On auxiliary elements sorted by element number, none below \<open>i\<close>, the loop of lines
  2774-2778 applies exactly those that carry the index \<open>i\<close> and leaves the others.
\<close>

lemma aux_loop_sorted:
  "sorted (map aux_num aux) \<Longrightarrow> \<forall>x \<in> set aux. i \<le> aux_num x \<Longrightarrow>
   aux_loop f i aux res =
     (fold f (filter (\<lambda>x. aux_num x = i) aux) res, filter (\<lambda>x. aux_num x \<noteq> i) aux)"
proof (induction aux arbitrary: res)
  case Nil
  then show ?case by simp
next
  case (Cons x xs)
  show ?case
  proof (cases "aux_num x = i")
    case True
    then show ?thesis using Cons by simp
  next
    case False
    then have "\<forall>y \<in> set xs. aux_num y \<noteq> i" using Cons.prems by fastforce
    then have "filter (\<lambda>x. aux_num x = i) xs = []" "filter (\<lambda>x. aux_num x \<noteq> i) xs = xs"
      by (simp_all add: filter_empty_conv filter_id_conv)
    then show ?thesis using False by simp
  qed
qed

text \<open>
  C5: every call of \<^verbatim>\<open>assembleRes\<close> zeroes the vector, then adds every element's residual
  with the auxiliary contributions of its index, then reduces across the processes, then
  applies the boundary conditions. This fails on the code with more than one thread. With
  one thread the two element residuals are added to the zeroed vector at address 5, which
  ends as \<open>1, 2, 1\<close>. With two threads and \<^verbatim>\<open>tacsPInfo->res\<close> pointing at the vector at
  address 9, the vector at address 5 is zeroed, reduced and returned as \<open>0, 0, 0\<close>, and the
  element residuals are added to the vector at address 9, in either order of the merges:
  \<^verbatim>\<open>assembleRes\<close> does not hand its argument to the threads, as \<^verbatim>\<open>assembleJacobian\<close> does
  at line 2832.
\<close>

theorem assembleRes_threads_miss_residual:
  "map_option (\<lambda>(a', st'). st' 5) (assembleRes ex_res_ops [0, 1] ex_res_a ex_res_store 5)
     = Some [1, 2, 1] \<and>
   map_option (\<lambda>(a', st'). (st' 5, st' 9)) (assembleRes ex_res_ops [0, 1] ex_res_a2 ex_res_store 5)
     = Some ([0, 0, 0], [1, 2, 1]) \<and>
   map_option (\<lambda>(a', st'). (st' 5, st' 9)) (assembleRes ex_res_ops [1, 0] ex_res_a2 ex_res_store 5)
     = Some ([0, 0, 0], [1, 2, 1])"
  by code_simp

end
